theory Spec2Isabelle
  imports Main "HOL-Library.Sublist"
begin

section \<open>URL-based routing (utils/config.ts)\<close>

text \<open>
  JavaScript exceptions are values: a computation that may throw returns
  \<open>js_error + 'a\<close>, with \<open>Inl\<close> the thrown error. Numbers that hold ports and
  tab identifiers are modelled as \<open>int\<close>; strings as \<open>string\<close>.
\<close>

datatype js_error = SyntaxError | TypeError

definition try_catch :: "js_error + 'a \<Rightarrow> (js_error \<Rightarrow> js_error + 'a) \<Rightarrow> js_error + 'a" where
  "try_catch body handler = (case body of Inl e \<Rightarrow> handler e | Inr v \<Rightarrow> Inr v)"

text \<open>\<open>patternType: 'port' | 'contains' | 'regex'\<close>\<close>

datatype patternType = Port | Contains | Regex

text \<open>\<open>interface RouteConfig\<close>; the field \<open>id\<close> is named \<open>route_id\<close> here.\<close>

record RouteConfig =
  route_id :: string
  name :: string
  pattern :: string
  patternType :: patternType
  mcpPort :: int
  enabled :: bool

text \<open>
  The two built-ins the routing code calls are parameters of the model.
  \<open>new RegExp(pattern)\<close> either throws or yields an object whose \<open>test\<close> is a
  predicate on strings; \<open>new URL(url)\<close> either throws or yields an object whose
  \<open>hostname\<close> is a string.
\<close>

type_synonym RegExp_ctor = "string \<Rightarrow> js_error + (string \<Rightarrow> bool)"
type_synonym URL_ctor = "string \<Rightarrow> js_error + string"

text \<open>
  \<open>String.prototype.includes\<close>, named \<open>js_includes\<close> since \<open>includes\<close> is reserved:
  the argument occurs as a contiguous substring.
\<close>

definition js_includes :: "string \<Rightarrow> string \<Rightarrow> bool" where
  "js_includes s searchString = sublist searchString s"

text \<open>
  The \<open>switch (route.patternType)\<close> of \<open>findMatchingRoute\<close> (config.ts, lines 72 to 93),
  computing \<open>matches\<close> for one route. The \<open>regex\<close> case is the \<open>try\<close> block with its
  \<open>catch\<close> that sets \<open>matches = false\<close>.
\<close>

definition patternTest :: "RegExp_ctor \<Rightarrow> string \<Rightarrow> RouteConfig \<Rightarrow> js_error + bool" where
  "patternTest RegExp url route =
     (case patternType route of
        Port \<Rightarrow> Inr (js_includes url (CHR '':'' # pattern route))
      | Contains \<Rightarrow> Inr (js_includes url (pattern route))
      | Regex \<Rightarrow>
          try_catch
            (case RegExp (pattern route) of
               Inl e \<Rightarrow> Inl e
             | Inr regex \<Rightarrow> Inr (regex url))
            (\<lambda>e. Inr False))"

text \<open>The \<open>for (const route of routes)\<close> loop of \<open>findMatchingRoute\<close>.\<close>

fun findMatchingRoute ::
  "RegExp_ctor \<Rightarrow> string \<Rightarrow> RouteConfig list \<Rightarrow> js_error + RouteConfig option" where
  "findMatchingRoute RegExp url [] = Inr None"
| "findMatchingRoute RegExp url (route # routes) =
     (if \<not> enabled route then findMatchingRoute RegExp url routes
      else case patternTest RegExp url route of
             Inl e \<Rightarrow> Inl e
           | Inr matches \<Rightarrow>
               if matches then Inr (Some route)
               else findMatchingRoute RegExp url routes)"

section \<open>Endpoint resolution (service worker, \<open>getEndpointForUrl\<close>)\<close>

text \<open>
  \<open>ExtensionConfig\<close>: the \<open>websocket\<close> default endpoint is a record of its own, and the
  value \<open>{host, port, route}\<close> returned by \<open>getEndpointForUrl\<close> extends it by \<open>route\<close>.
  The extension-wide flag \<open>enabled\<close> is named \<open>cfg_enabled\<close>; the \<open>logger\<close> settings are
  not read by the code modelled here and are left out.
\<close>

record WebSocketConfig =
  host :: string
  port :: int

record Endpoint = WebSocketConfig +
  route :: "RouteConfig option"

record ExtensionConfig =
  cfg_enabled :: bool
  autoRouting :: bool
  websocket :: WebSocketConfig
  routes :: "RouteConfig list"

text \<open>\<open>extractHostFromUrl\<close>: \<open>null\<close> is \<open>None\<close>.\<close>

definition extractHostFromUrl :: "URL_ctor \<Rightarrow> string \<Rightarrow> js_error + string option" where
  "extractHostFromUrl URL url =
     try_catch
       (case URL url of
          Inl e \<Rightarrow> Inl e
        | Inr hostname \<Rightarrow> Inr (Some hostname))
       (\<lambda>e. Inr None)"

text \<open>
  \<open>a || b\<close> on \<open>string | null\<close> and \<open>string | undefined\<close>: the left operand is falsy when
  it is missing or the empty string.
\<close>

definition or_string :: "string option \<Rightarrow> string \<Rightarrow> string" where
  "or_string a b = (case a of None \<Rightarrow> b | Some s \<Rightarrow> if s = [] then b else s)"

definition getEndpointForUrl ::
  "RegExp_ctor \<Rightarrow> URL_ctor \<Rightarrow> ExtensionConfig \<Rightarrow> string \<Rightarrow> js_error + Endpoint" where
  "getEndpointForUrl RegExp URL currentConfig url =
     (case extractHostFromUrl URL url of
        Inl e \<Rightarrow> Inl e
      | Inr extractedHost \<Rightarrow>
          let h = or_string extractedHost (host (websocket currentConfig)) in
          if \<not> autoRouting currentConfig then
            Inr \<lparr>host = h, port = port (websocket currentConfig), route = None\<rparr>
          else
            case findMatchingRoute RegExp url (routes currentConfig) of
              Inl e \<Rightarrow> Inl e
            | Inr matchedRoute \<Rightarrow>
                (case matchedRoute of
                   Some m \<Rightarrow> Inr \<lparr>host = h, port = mcpPort m, route = Some m\<rparr>
                 | None \<Rightarrow> Inr \<lparr>host = h, port = port (websocket currentConfig), route = None\<rparr>))"

section \<open>Dispatcher and route tracking (service worker)\<close>

text \<open>
  \<open>activeRoutes: Map<number, RouteConfig | null>\<close>. Of the message \<open>request\<close> and its
  \<open>sender\<close> the model keeps the fields the listener reads: \<open>request.type\<close>,
  \<open>request.data\<close> (missing is \<open>None\<close>) with \<open>data.url\<close>, and \<open>sender.tab\<close> with its optional
  \<open>id\<close> and \<open>url\<close>.
\<close>

type_synonym activeRoutes = "int \<rightharpoonup> RouteConfig option"

record PointedData =
  data_url :: "string option"

record Tab =
  tab_id :: "int option"
  tab_url :: "string option"

record Request =
  req_type :: string
  data :: "PointedData option"

record MessageSender =
  tab :: "Tab option"

text \<open>\<open>if (tabId)\<close> on \<open>number | undefined\<close>: false when missing or zero.\<close>

definition truthy_number :: "int option \<Rightarrow> bool" where
  "truthy_number n = (case n of None \<Rightarrow> False | Some k \<Rightarrow> k \<noteq> 0)"

text \<open>
  The two module variables the listener reads are declared without a value
  (\<open>let elementSender\<close>, \<open>let currentConfig\<close>), while the listeners are registered when the
  module is evaluated. \<open>currentConfig\<close> is assigned by \<open>initialize\<close> once the awaited
  \<open>ConfigStorageService.load()\<close> has resolved, or before that by the \<open>onChange\<close> listener;
  \<open>elementSender\<close> is assigned by \<open>initialize\<close> only, right after \<open>currentConfig\<close>. So
  \<open>currentConfig\<close> is an \<open>ExtensionConfig option\<close> here (\<open>None\<close> is \<open>undefined\<close>), and
  \<open>elementSender\<close> a flag that tells whether the service has been created. Reading a
  property of \<open>undefined\<close> throws a \<open>TypeError\<close>.

  \<open>getEndpointForUrl\<close> as the listener calls it, on the module variable: when
  \<open>currentConfig\<close> is \<open>undefined\<close> the call throws, at
  \<open>currentConfig.websocket.host\<close> (line 61) when no host was extracted and at
  \<open>currentConfig.autoRouting\<close> (line 63) otherwise.
\<close>

definition getEndpointForUrl_current ::
  "RegExp_ctor \<Rightarrow> URL_ctor \<Rightarrow> ExtensionConfig option \<Rightarrow> string \<Rightarrow> js_error + Endpoint" where
  "getEndpointForUrl_current RegExp URL currentConfig url =
     (case currentConfig of
        None \<Rightarrow> Inl TypeError
      | Some config \<Rightarrow> getEndpointForUrl RegExp URL config url)"

text \<open>
  The \<open>DOM_ELEMENT_POINTED\<close> block of the \<open>chrome.runtime.onMessage\<close> listener (lines 94 to
  143), the only code that writes to \<open>activeRoutes\<close> besides \<open>onRemoved\<close>. The result is
  the store as the block leaves it, and how the block ends: with the error it throws, or
  with the call \<open>elementSender.sendElement(data, host, port, ..)\<close> it issued, as the pair
  \<open>(host, port)\<close> (\<open>None\<close> when the condition of the block is false and nothing is done).
  An error thrown by \<open>getEndpointForUrl\<close> leaves the store as it was; the call on
  \<open>elementSender\<close> comes after \<open>activeRoutes.set\<close>, so that a \<open>TypeError\<close> thrown there leaves
  the updated store.
\<close>

definition onMessage ::
  "RegExp_ctor \<Rightarrow> URL_ctor \<Rightarrow> ExtensionConfig option \<Rightarrow> bool \<Rightarrow> Request \<Rightarrow> MessageSender
     \<Rightarrow> activeRoutes \<Rightarrow> activeRoutes \<times> (js_error + (string \<times> int) option)" where
  "onMessage RegExp URL currentConfig elementSender request sender activeRoutes =
     (case data request of
        Some d \<Rightarrow>
          if req_type request = ''DOM_ELEMENT_POINTED'' then
            let url = or_string (data_url d)
                        (or_string (case tab sender of None \<Rightarrow> None | Some t \<Rightarrow> tab_url t) []);
                tabId = (case tab sender of None \<Rightarrow> None | Some t \<Rightarrow> tab_id t)
            in case getEndpointForUrl_current RegExp URL currentConfig url of
                 Inl e \<Rightarrow> (activeRoutes, Inl e)
               | Inr ep \<Rightarrow>
                   (if truthy_number tabId then activeRoutes(the tabId \<mapsto> route ep)
                    else activeRoutes,
                    if elementSender then Inr (Some (host ep, port ep)) else Inl TypeError)
          else (activeRoutes, Inr None)
      | None \<Rightarrow> (activeRoutes, Inr None))"

text \<open>\<open>chrome.tabs.onRemoved\<close> listener: \<open>activeRoutes.delete(tabId)\<close>.\<close>

definition onRemoved :: "int \<Rightarrow> activeRoutes \<Rightarrow> activeRoutes" where
  "onRemoved tabId activeRoutes = activeRoutes(tabId := None)"

section \<open>Connection lifecycle (services/element-sender-service.ts)\<close>

text \<open>
  \<open>ElementSenderService\<close> runs on the JavaScript event loop: a call of \<open>sendElement\<close> runs
  until its first \<open>await\<close> that has to wait, and resumes when the socket fires \<open>open\<close> or
  the connection timeout fires. The model is a transition system. Its state holds the
  fields of the service (\<open>ws\<close>, \<open>currentHost\<close>, \<open>currentPort\<close>, \<open>idleTimeout\<close>) and the part of
  the environment the service acts on: the \<open>readyState\<close> of every socket object created so
  far (sockets are numbered in creation order), the pending idle timers, the \<open>sendElement\<close>
  calls suspended in \<open>waitForConnection\<close>, and the trace of everything observable (status
  callbacks, sockets created and closed, frames handed to a socket). Calls of
  \<open>sendElement\<close> are numbered in call order; the number identifies the call in the trace.
  Time is a clock \<open>now\<close>, in milliseconds, that tasks of their own advance. A timer is
  pending from \<open>setTimeout\<close> until it fires or is cleared, and it can fire only once its
  delay has passed (\<open>timeout_due\<close> of a suspended call, \<open>idle_due\<close> of an idle timer); it
  may fire later than that.
\<close>

datatype ConnectionStatus = CONNECTING | CONNECTED | SENDING | SENT | ERROR

datatype readyState = WS_CONNECTING | WS_OPEN | WS_CLOSING | WS_CLOSED

text \<open>The second argument of the status callback.\<close>

datatype error_message =
    Invalid_host
  | Invalid_port_number
  | Connection_timeout_to string int
  | Exception_message js_error

datatype event =
    Status nat ConnectionStatus "error_message option"
  | SocketNew nat string int
  | SocketClose nat
  | SocketSend nat nat

record world =
  ws :: "nat option"
  currentHost :: "string option"
  currentPort :: "int option"
  idleTimeout :: "nat option"
  readyState :: "nat \<Rightarrow> readyState"
  sockets :: nat
  timers :: "nat list"
  next_timer :: nat
  waiting :: "(nat \<times> nat \<times> string \<times> int) list"
  sends :: nat
  trace :: "event list"
  now :: nat
  timeout_due :: "nat \<Rightarrow> nat"
  idle_due :: "nat \<Rightarrow> nat"

text \<open>The two delays of the service that the model uses.\<close>

definition IDLE_DURATION :: nat where
  "IDLE_DURATION = 10000"

definition CONNECTION_TIMEOUT :: nat where
  "CONNECTION_TIMEOUT = 10000"

definition initial_world :: world where
  "initial_world = \<lparr>ws = None, currentHost = None, currentPort = None, idleTimeout = None,
     readyState = (\<lambda>s. WS_CLOSED), sockets = 0, timers = [], next_timer = 1,
     waiting = [], sends = 0, trace = [], now = 0, timeout_due = (\<lambda>i. 0),
     idle_due = (\<lambda>t. 0)\<rparr>"

text \<open>\<open>statusCallback?.(status, error)\<close> of the call numbered \<open>i\<close>.\<close>

definition emit :: "nat \<Rightarrow> ConnectionStatus \<Rightarrow> error_message option \<Rightarrow> world \<Rightarrow> world" where
  "emit i status err w = w\<lparr>trace := trace w @ [Status i status err]\<rparr>"

text \<open>\<open>clearIdleTimer\<close>: a timer handle is never falsy, so the test is on \<open>null\<close>.\<close>

definition clearIdleTimer :: "world \<Rightarrow> world" where
  "clearIdleTimer w =
     (case idleTimeout w of
        None \<Rightarrow> w
      | Some t \<Rightarrow> w\<lparr>timers := removeAll t (timers w), idleTimeout := None\<rparr>)"

text \<open>
  \<open>startIdleTimer\<close>: \<open>setTimeout(.., this.IDLE_DURATION)\<close> returns a fresh handle.
\<close>

definition startIdleTimer :: "world \<Rightarrow> world" where
  "startIdleTimer w =
     w\<lparr>idleTimeout := Some (next_timer w), timers := timers w @ [next_timer w],
       next_timer := Suc (next_timer w),
       idle_due := (idle_due w)(next_timer w := now w + IDLE_DURATION)\<rparr>"

text \<open>\<open>disconnect\<close>: \<open>ws.close()\<close> leaves the socket object closed for good.\<close>

definition disconnect :: "world \<Rightarrow> world" where
  "disconnect w =
     (let w1 = clearIdleTimer w in
      case ws w1 of
        None \<Rightarrow> w1
      | Some s \<Rightarrow>
          w1\<lparr>ws := None, readyState := (readyState w1)(s := WS_CLOSED),
             trace := trace w1 @ [SocketClose s]\<rparr>)"

text \<open>\<open>get isConnected\<close>: \<open>this.ws?.readyState === WebSocket.OPEN\<close>.\<close>

definition isConnected :: "world \<Rightarrow> bool" where
  "isConnected w = (case ws w of None \<Rightarrow> False | Some s \<Rightarrow> readyState w s = WS_OPEN)"

text \<open>
  \<open>String.prototype.trim\<close> strips the white space and line terminator code points of
  ECMAScript. A \<open>char\<close> is a code unit below 256; in that range these are exactly
  U+0009 (tab), U+000A (line feed), U+000B (vertical tab), U+000C (form feed),
  U+000D (carriage return), U+0020 (space) and U+00A0 (no-break space). The others
  (U+1680, U+2000 to U+200A, U+2028, U+2029, U+202F, U+205F, U+3000, U+FEFF) are not
  values of \<open>char\<close>, so that no \<open>string\<close> contains them.
\<close>

definition js_whitespace :: "char \<Rightarrow> bool" where
  "js_whitespace c =
     (c \<in> set [CHR 0x09, CHR 0x0A, CHR 0x0B, CHR 0x0C, CHR 0x0D, CHR 0x20, CHR 0xA0])"

definition trim :: "string \<Rightarrow> string" where
  "trim s = rev (dropWhile js_whitespace (rev (dropWhile js_whitespace s)))"

text \<open>
  \<open>handleConnectionChange\<close>, for the call numbered \<open>i\<close>. \<open>!port\<close> on an integer is
  \<open>port = 0\<close>.
\<close>

definition handleConnectionChange :: "nat \<Rightarrow> string \<Rightarrow> int \<Rightarrow> world \<Rightarrow> bool \<times> world" where
  "handleConnectionChange i host' port' w =
     (if host' = [] \<or> trim host' = [] then
        (False, emit i ERROR (Some Invalid_host) w)
      else if port' = 0 \<or> port' \<le> 0 \<or> port' > 65535 then
        (False, emit i ERROR (Some Invalid_port_number) w)
      else
        let isInitialization = (currentHost w = None \<and> currentPort w = None) in
        if isInitialization then
          (True, w\<lparr>currentHost := Some host', currentPort := Some port'\<rparr>)
        else
          let hostChanged = (currentHost w \<noteq> Some host');
              portChanged = (currentPort w \<noteq> Some port')
          in if hostChanged \<or> portChanged then
               (True, (disconnect w)\<lparr>currentHost := Some host', currentPort := Some port'\<rparr>)
             else (True, w))"

text \<open>
  A promise either is settled when the caller awaits it, or the caller is suspended.
\<close>

datatype 'a outcome = Returned 'a world | Awaiting world

text \<open>
  \<open>waitForConnection\<close>: settled at once without a socket or with an open one; otherwise
  the call is suspended, with its timeout timer of delay \<open>CONNECTION_TIMEOUT\<close> and its
  \<open>open\<close> listener on the socket.
\<close>

definition waitForConnection :: "nat \<Rightarrow> string \<Rightarrow> int \<Rightarrow> world \<Rightarrow> bool outcome" where
  "waitForConnection i host' port' w =
     (case ws w of
        None \<Rightarrow> Returned False w
      | Some s \<Rightarrow>
          if readyState w s = WS_OPEN then Returned True w
          else Awaiting (w\<lparr>waiting := waiting w @ [(i, s, host', port')],
                           timeout_due := (timeout_due w)(i := now w + CONNECTION_TIMEOUT)\<rparr>))"

text \<open>
  \<open>ensureConnection\<close> from \<open>const connected = await this.waitForConnection()\<close> on, given
  the value of \<open>connected\<close>.
\<close>

definition ensureConnection_resume ::
  "nat \<Rightarrow> string \<Rightarrow> int \<Rightarrow> bool \<Rightarrow> world \<Rightarrow> bool \<times> world" where
  "ensureConnection_resume i host' port' connected w =
     (if \<not> connected then
        (False, disconnect (emit i ERROR (Some (Connection_timeout_to host' port')) w))
      else (True, emit i CONNECTED None w))"

text \<open>
  \<open>ensureConnection\<close> from its start. \<open>new ReconnectingWebSocket\<close> creates the next socket
  object, in state \<open>CONNECTING\<close>; \<open>setupHandlers\<close> only logs.
\<close>

definition ensureConnection :: "nat \<Rightarrow> string \<Rightarrow> int \<Rightarrow> world \<Rightarrow> bool outcome" where
  "ensureConnection i host' port' w =
     (let (connectionHandled, w1) = handleConnectionChange i host' port' w in
      if \<not> connectionHandled then Returned False w1
      else if \<not> isConnected w1 then
        let w2 = emit i CONNECTING None w1;
            s = sockets w2;
            w3 = w2\<lparr>ws := Some s, readyState := (readyState w2)(s := WS_CONNECTING),
                    sockets := Suc s, trace := trace w2 @ [SocketNew s host' port']\<rparr>
        in case waitForConnection i host' port' w3 of
             Returned connected w4 \<Rightarrow>
               (case ensureConnection_resume i host' port' connected w4 of
                  (r, w5) \<Rightarrow> Returned r w5)
           | Awaiting w4 \<Rightarrow> Awaiting w4
      else Returned True (emit i CONNECTED None w1))"

text \<open>
  \<open>sendElement\<close> from \<open>if (!connected) return\<close> on, given the value of \<open>connected\<close>.
  \<open>this.ws!.send(..)\<close> throws a \<open>TypeError\<close> when \<open>this.ws\<close> is \<open>null\<close>; whether the socket's
  own \<open>send\<close> returns normally is the input \<open>send_ok\<close>. The \<open>catch\<close> reports \<open>ERROR\<close>.
\<close>

definition sendElement_resume :: "nat \<Rightarrow> bool \<Rightarrow> bool \<Rightarrow> world \<Rightarrow> world" where
  "sendElement_resume i send_ok connected w =
     (if \<not> connected then w
      else
        let w1 = startIdleTimer w;
            w2 = emit i SENDING None w1
        in case ws w2 of
             None \<Rightarrow> emit i ERROR (Some (Exception_message TypeError)) w2
           | Some s \<Rightarrow>
               if send_ok then
                 emit i SENT None (w2\<lparr>trace := trace w2 @ [SocketSend s i]\<rparr>)
               else emit i ERROR (Some (Exception_message TypeError)) w2)"

text \<open>\<open>sendElement\<close> from its start, up to its end or its suspension.\<close>

definition sendElement :: "nat \<Rightarrow> string \<Rightarrow> int \<Rightarrow> bool \<Rightarrow> world \<Rightarrow> world" where
  "sendElement i host' port' send_ok w =
     (let w1 = clearIdleTimer w in
      case ensureConnection i host' port' w1 of
        Returned connected w2 \<Rightarrow> sendElement_resume i send_ok connected w2
      | Awaiting w2 \<Rightarrow> w2)"

text \<open>
  A suspended call resumes with the value its \<open>waitForConnection\<close> promise settles to.
\<close>

definition resume :: "bool \<Rightarrow> bool \<Rightarrow> world \<Rightarrow> nat \<times> nat \<times> string \<times> int \<Rightarrow> world" where
  "resume send_ok connected w x =
     (case x of (i, s, host', port') \<Rightarrow>
        (case ensureConnection_resume i host' port' connected w of
           (r, w1) \<Rightarrow> sendElement_resume i send_ok r w1))"

text \<open>
  The tasks of the event loop.
  \<^item> \<open>SendElement host port send_ok\<close>: the dispatcher calls \<open>sendElement\<close>.
  \<^item> \<open>SocketOpens s send_ok\<close>: socket \<open>s\<close>, connecting, fires \<open>open\<close>. Every \<open>handleOpen\<close>
    registered on it clears its timeout and settles its promise to \<open>true\<close>; the
    suspended calls then resume in order.
  \<^item> \<open>ConnectionTimeout i\<close>: the timeout of the suspended call \<open>i\<close>, due, fires and
    settles its promise to \<open>false\<close>.
  \<^item> \<open>IdleTimerFires t\<close>: the pending idle timer \<open>t\<close>, due, fires and calls \<open>disconnect\<close>.
  \<^item> \<open>SocketDrops s\<close>: the open socket \<open>s\<close> loses its connection and reconnects.
  \<^item> \<open>Advance d\<close>: \<open>d\<close> milliseconds pass.
  A task that is not enabled in a state has no successor.
\<close>

datatype action =
    SendElement string int bool
  | SocketOpens nat bool
  | ConnectionTimeout nat
  | IdleTimerFires nat
  | SocketDrops nat
  | Advance nat

fun step :: "action \<Rightarrow> world \<Rightarrow> world option" where
  "step (SendElement host' port' send_ok) w =
     Some (sendElement (sends w) host' port' send_ok (w\<lparr>sends := Suc (sends w)\<rparr>))"
| "step (SocketOpens s send_ok) w =
     (if s < sockets w \<and> readyState w s = WS_CONNECTING then
        Some (foldl (resume send_ok True)
                (w\<lparr>readyState := (readyState w)(s := WS_OPEN),
                   waiting := filter (\<lambda>x. fst (snd x) \<noteq> s) (waiting w)\<rparr>)
                (filter (\<lambda>x. fst (snd x) = s) (waiting w)))
      else None)"
| "step (ConnectionTimeout i) w =
     (case find (\<lambda>x. fst x = i) (waiting w) of
        None \<Rightarrow> None
      | Some x \<Rightarrow>
          if timeout_due w i \<le> now w then
            Some (resume True False (w\<lparr>waiting := filter (\<lambda>y. fst y \<noteq> i) (waiting w)\<rparr>) x)
          else None)"
| "step (IdleTimerFires t) w =
     (if t \<in> set (timers w) \<and> idle_due w t \<le> now w then
        Some (disconnect (w\<lparr>timers := removeAll t (timers w)\<rparr>))
      else None)"
| "step (SocketDrops s) w =
     (if s < sockets w \<and> readyState w s = WS_OPEN then
        Some (w\<lparr>readyState := (readyState w)(s := WS_CONNECTING)\<rparr>)
      else None)"
| "step (Advance d) w = Some (w\<lparr>now := now w + d\<rparr>)"

fun run :: "action list \<Rightarrow> world \<Rightarrow> world option" where
  "run [] w = Some w"
| "run (a # as) w = (case step a w of None \<Rightarrow> None | Some w' \<Rightarrow> run as w')"

inductive reachable :: "world \<Rightarrow> bool" where
  reachable_initial: "reachable initial_world"
| reachable_step: "reachable w \<Longrightarrow> step a w = Some w' \<Longrightarrow> reachable w'"

text \<open>The trace of a run from the initial state (empty when the run is not possible).\<close>

definition trace_of :: "action list \<Rightarrow> event list" where
  "trace_of as = (case run as initial_world of None \<Rightarrow> [] | Some w \<Rightarrow> trace w)"

text \<open>The statuses reported to the callback of the call numbered \<open>i\<close>, in order.\<close>

fun statuses :: "nat \<Rightarrow> event list \<Rightarrow> ConnectionStatus list" where
  "statuses i [] = []"
| "statuses i (Status j st err # es) = (if j = i then st # statuses i es else statuses i es)"
| "statuses i (e # es) = statuses i es"

text \<open>The sockets that were handed a frame of the call numbered \<open>i\<close>, in order.\<close>

fun frames :: "nat \<Rightarrow> event list \<Rightarrow> nat list" where
  "frames i [] = []"
| "frames i (SocketSend s j # es) = (if j = i then s # frames i es else frames i es)"
| "frames i (e # es) = frames i es"

subsection \<open>Auxiliary notions for the connection lifecycle\<close>

text \<open>The inputs that pass the two validation tests of \<open>handleConnectionChange\<close>.\<close>

definition valid_endpoint :: "string \<Rightarrow> int \<Rightarrow> bool" where
  "valid_endpoint h p = (h \<noteq> [] \<and> trim h \<noteq> [] \<and> 0 < p \<and> p \<le> 65535)"

text \<open>The state change of \<open>handleConnectionChange\<close> on inputs that pass validation.\<close>

definition target_switch :: "string \<Rightarrow> int \<Rightarrow> world \<Rightarrow> world" where
  "target_switch h p w =
     (if currentHost w = None \<and> currentPort w = None then
        w\<lparr>currentHost := Some h, currentPort := Some p\<rparr>
      else if currentHost w \<noteq> Some h \<or> currentPort w \<noteq> Some p then
        (disconnect w)\<lparr>currentHost := Some h, currentPort := Some p\<rparr>
      else w)"

text \<open>The part of \<open>ensureConnection\<close> that reports \<open>CONNECTING\<close>, creates the socket and suspends the call.\<close>

definition open_socket :: "nat \<Rightarrow> string \<Rightarrow> int \<Rightarrow> world \<Rightarrow> world" where
  "open_socket i h p w =
     w\<lparr>ws := Some (sockets w), readyState := (readyState w)(sockets w := WS_CONNECTING),
       sockets := Suc (sockets w),
       trace := trace w @ [Status i CONNECTING None, SocketNew (sockets w) h p],
       waiting := waiting w @ [(i, sockets w, h, p)],
       timeout_due := (timeout_due w)(i := now w + CONNECTION_TIMEOUT)\<rparr>"

text \<open>The status sequences of one call: \<open>CONNECTING\<close> (only when a connection has to be established), \<open>CONNECTED\<close>, \<open>SENDING\<close>, \<open>SENT\<close>, or an initial part of that, possibly cut by one \<open>ERROR\<close>.\<close>

definition status_order_ok :: "ConnectionStatus list \<Rightarrow> bool" where
  "status_order_ok xs =
     (xs \<in> set [[], [ERROR], [CONNECTING], [CONNECTING, ERROR],
                [CONNECTING, CONNECTED, SENDING, SENT], [CONNECTING, CONNECTED, SENDING, ERROR],
                [CONNECTED, SENDING, SENT], [CONNECTED, SENDING, ERROR]])"

text \<open>The numbers of the suspended calls.\<close>

definition waiting_ids :: "world \<Rightarrow> nat set" where
  "waiting_ids w = fst ` set (waiting w)"

text \<open>Trace discipline: a suspended call has reported \<open>CONNECTING\<close> only and sent no frame, a call not yet made has no event, and every call's statuses are in order.\<close>

definition trace_ok :: "nat set \<Rightarrow> nat \<Rightarrow> event list \<Rightarrow> bool" where
  "trace_ok W n tr =
     (\<forall>i. (i \<in> W \<longrightarrow> statuses i tr = [CONNECTING] \<and> frames i tr = [])
        \<and> (n \<le> i \<longrightarrow> statuses i tr = [] \<and> frames i tr = [])
        \<and> status_order_ok (statuses i tr))"

text \<open>The invariant of the reachable states.\<close>

definition consistent :: "world \<Rightarrow> bool" where
  "consistent w =
     (trace_ok (waiting_ids w) (sends w) (trace w)
      \<and> distinct (map fst (waiting w))
      \<and> (\<forall>s. ws w = Some s \<longrightarrow> s < sockets w)
      \<and> (\<forall>t \<in> set (timers w). t < next_timer w)
      \<and> (\<forall>t. idleTimeout w = Some t \<longrightarrow> t < next_timer w))"

text \<open>Timer handles in use are older than the next handle.\<close>

definition timers_fresh :: "world \<Rightarrow> bool" where
  "timers_fresh w =
     ((\<forall>t \<in> set (timers w). t < next_timer w) \<and> (\<forall>t. idleTimeout w = Some t \<longrightarrow> t < next_timer w))"

text \<open>The tasks that are calls of \<open>sendElement\<close>.\<close>

fun is_send :: "action \<Rightarrow> bool" where
  "is_send (SendElement h p ok) = True"
| "is_send a = False"

text \<open>From socket \<open>k\<close> on: the sockets created so far include all below \<open>k\<close>, and neither \<open>ws\<close> nor any frame of call \<open>i\<close> is on a socket below \<open>k\<close>.\<close>

definition sockets_from :: "nat \<Rightarrow> nat \<Rightarrow> world \<Rightarrow> bool" where
  "sockets_from k i w =
     (k \<le> sockets w \<and> (\<forall>s. ws w = Some s \<longrightarrow> k \<le> s) \<and> (\<forall>s \<in> set (frames i (trace w)). k \<le> s))"

text \<open>The socket held in \<open>ws\<close> was created for the current target.\<close>

definition socket_for_target :: "world \<Rightarrow> bool" where
  "socket_for_target w =
     (\<forall>s. ws w = Some s \<longrightarrow>
        (\<exists>h p. currentHost w = Some h \<and> currentPort w = Some p \<and> SocketNew s h p \<in> set (trace w)))"

text \<open>The sockets closed, in order.\<close>

fun closes :: "event list \<Rightarrow> nat list" where
  "closes [] = []"
| "closes (SocketClose s # es) = s # closes es"
| "closes (e # es) = closes es"

text \<open>Timer \<open>t\<close> was handed out and is no longer pending.\<close>

definition timer_gone :: "nat \<Rightarrow> world \<Rightarrow> bool" where
  "timer_gone t w = (t \<notin> set (timers w) \<and> t < next_timer w)"

text \<open>
  The socket held, the connection test, the idle timer handle and the pending idle timers
  after a run from the initial state (\<open>None\<close> when some task of the run is not enabled).
\<close>

definition idle_view :: "action list \<Rightarrow> (nat option \<times> bool \<times> nat option \<times> nat list) option" where
  "idle_view as =
     (case run as initial_world of
        None \<Rightarrow> None
      | Some w \<Rightarrow> Some (ws w, isConnected w, idleTimeout w, timers w))"

text \<open>
  The \<open>readyState\<close> of every socket created in a run from the initial state, in creation
  order, and the clock after the run (\<open>None\<close> when some task of the run is not enabled).
\<close>

definition socket_states :: "action list \<Rightarrow> readyState list option" where
  "socket_states as =
     (case run as initial_world of
        None \<Rightarrow> None
      | Some w \<Rightarrow> Some (map (readyState w) [0..<sockets w]))"

definition clock :: "action list \<Rightarrow> nat option" where
  "clock as = (case run as initial_world of None \<Rightarrow> None | Some w \<Rightarrow> Some (now w))"





subsection \<open>Sample data\<close>

definition no_regex :: RegExp_ctor where
  "no_regex p = Inl SyntaxError"

definition route_22002 :: RouteConfig where
  "route_22002 = \<lparr>route_id = ''dentistry'', name = ''DentistryGPT'', pattern = ''22002'',
     patternType = Port, mcpPort = 7022, enabled = True\<rparr>"

definition route_10 :: RouteConfig where
  "route_10 = \<lparr>route_id = ''ten'', name = ''Ten'', pattern = ''10.0'',
     patternType = Contains, mcpPort = 7010, enabled = True\<rparr>"

definition route_off :: RouteConfig where
  "route_off = \<lparr>route_id = ''off'', name = ''Off'', pattern = ''https'',
     patternType = Contains, mcpPort = 7001, enabled = False\<rparr>"

text \<open>
  Stand-ins for the two built-ins, used at concrete inputs only: \<open>sample_RegExp\<close> rejects
  the pattern \<open>([\<close> and reads every other pattern as literal text; \<open>sample_URL\<close> lists
  the \<open>hostname\<close> of the URLs used below (a \<open>file:\<close> URL has the empty hostname).
\<close>

definition sample_RegExp :: RegExp_ctor where
  "sample_RegExp p = (if p = ''(['' then Inl SyntaxError else Inr (\<lambda>u. js_includes u p))"

definition sample_URL :: URL_ctor where
  "sample_URL u =
     (if u = ''https://10.0.0.5:22002/x'' then Inr ''10.0.0.5''
      else if u = ''file:///home/page.html'' then Inr []
      else Inl TypeError)"

definition route_bad_regex :: RouteConfig where
  "route_bad_regex = \<lparr>route_id = ''bad'', name = ''Bad'', pattern = ''(['',
     patternType = Regex, mcpPort = 7099, enabled = True\<rparr>"

definition route_empty_contains :: RouteConfig where
  "route_empty_contains = \<lparr>route_id = ''all'', name = ''All'', pattern = [],
     patternType = Contains, mcpPort = 7050, enabled = True\<rparr>"

definition route_empty_port :: RouteConfig where
  "route_empty_port = \<lparr>route_id = ''colon'', name = ''Colon'', pattern = [],
     patternType = Port, mcpPort = 7051, enabled = True\<rparr>"

definition sample_config :: ExtensionConfig where
  "sample_config = \<lparr>cfg_enabled = True, autoRouting = True,
     websocket = \<lparr>host = ''localhost'', port = 7007\<rparr>, routes = [route_22002]\<rparr>"

definition sample_config_manual :: ExtensionConfig where
  "sample_config_manual = \<lparr>cfg_enabled = True, autoRouting = False,
     websocket = \<lparr>host = ''d'', port = 7007\<rparr>, routes = [route_22002]\<rparr>"

definition pointed_request :: Request where
  "pointed_request = \<lparr>req_type = ''DOM_ELEMENT_POINTED'',
     data = Some \<lparr>data_url = Some ''https://10.0.0.5:22002/x''\<rparr>\<rparr>"

definition pointed_request_no_data :: Request where
  "pointed_request_no_data = \<lparr>req_type = ''DOM_ELEMENT_POINTED'', data = None\<rparr>"

definition sender_of_tab :: "int \<Rightarrow> MessageSender" where
  "sender_of_tab n = \<lparr>tab = Some \<lparr>tab_id = Some n, tab_url = None\<rparr>\<rparr>"

section \<open>Properties of the route matcher\<close>

lemma patternTest_returns: "\<exists>b. patternTest RegExp url r = Inr b"
  by (cases "patternType r"; cases "RegExp (pattern r)"; auto simp add: patternTest_def try_catch_def)

lemma findMatchingRoute_find:
  "findMatchingRoute RegExp url rules =
     Inr (find (\<lambda>r. enabled r \<and> patternTest RegExp url r = Inr True) rules)"
proof (induction rules)
  case Nil
  show ?case by simp
next
  case (Cons rule rules)
  obtain b where b: "patternTest RegExp url rule = Inr b"
    using patternTest_returns by blast
  show ?case using Cons.IH b by simp
qed

text \<open>
  Claim C1. For every URL and every ordered rule list, \<open>findMatchingRoute\<close> returns the
  first enabled rule, in list order, whose pattern test succeeds: the result is a rule
  \<open>r\<close> exactly when the list splits as \<open>pre @ r # post\<close> with \<open>r\<close> enabled and matching and
  no enabled matching rule in \<open>pre\<close> (so disabled rules are skipped and the rules \<open>post\<close>
  after the first match play no part in the result), and the result is none exactly when
  no enabled rule's pattern test succeeds.
\<close>

theorem findMatchingRoute_first_enabled_match:
  "(findMatchingRoute RegExp url rules = Inr (Some r) \<longleftrightarrow>
      (\<exists>pre post. rules = pre @ r # post \<and> enabled r \<and> patternTest RegExp url r = Inr True \<and>
         (\<forall>x \<in> set pre. \<not> (enabled x \<and> patternTest RegExp url x = Inr True))))
   \<and> (findMatchingRoute RegExp url rules = Inr None \<longleftrightarrow>
        (\<forall>x \<in> set rules. \<not> (enabled x \<and> patternTest RegExp url x = Inr True)))
   \<and> (\<exists>res. findMatchingRoute RegExp url rules = Inr res)"
proof -
  let ?P = "\<lambda>r. enabled r \<and> patternTest RegExp url r = Inr True"
  have "find ?P rules = Some r \<longleftrightarrow>
      (\<exists>pre post. rules = pre @ r # post \<and> ?P r \<and> (\<forall>x \<in> set pre. \<not> ?P x))"
  proof
    assume "find ?P rules = Some r"
    then obtain i where i: "i < length rules" "?P (rules ! i)" "r = rules ! i"
      "\<forall>j<i. \<not> ?P (rules ! j)"
      unfolding find_Some_iff by blast
    have "rules = take i rules @ r # drop (Suc i) rules"
      using i(1,3) by (simp add: id_take_nth_drop)
    moreover have "\<forall>x \<in> set (take i rules). \<not> ?P x"
    proof
      fix x assume "x \<in> set (take i rules)"
      then obtain j where "j < length (take i rules)" "x = take i rules ! j"
        by (auto simp: in_set_conv_nth)
      then show "\<not> ?P x" using i(4) by simp
    qed
    ultimately show "\<exists>pre post. rules = pre @ r # post \<and> ?P r \<and> (\<forall>x \<in> set pre. \<not> ?P x)"
      using i(2,3) by blast
  next
    assume "\<exists>pre post. rules = pre @ r # post \<and> ?P r \<and> (\<forall>x \<in> set pre. \<not> ?P x)"
    then obtain pre post where s: "rules = pre @ r # post" "?P r" "\<forall>x \<in> set pre. \<not> ?P x"
      by blast
    have "find ?P (pre @ r # post) = Some r"
      using s(2,3) by (induction pre) auto
    then show "find ?P rules = Some r" using s(1) by simp
  qed
  moreover have "find ?P rules = None \<longleftrightarrow> (\<forall>x \<in> set rules. \<not> ?P x)"
    by (auto simp: find_None_iff)
  ultimately show ?thesis
    by (simp add: findMatchingRoute_find)
qed

theorem findMatchingRoute_first_enabled_match_witness:
  "findMatchingRoute no_regex ''https://10.0.0.5:22002/x'' [route_off, route_22002, route_10]
     = Inr (Some route_22002)
   \<and> findMatchingRoute no_regex ''http://example.org/'' [route_off, route_22002, route_10]
     = Inr None"
proof -
  let ?u = "''https://10.0.0.5:22002/x''"
  let ?v = "''http://example.org/''"
  let ?rs = "[route_off, route_22002, route_10]"
  have m: "patternTest no_regex ?u route_22002 = Inr True"
    by (simp add: patternTest_def route_22002_def js_includes_def sublist_code)
  have "\<exists>pre post. ?rs = pre @ route_22002 # post \<and>
          enabled route_22002 \<and> patternTest no_regex ?u route_22002 = Inr True \<and>
          (\<forall>x \<in> set pre. \<not> (enabled x \<and> patternTest no_regex ?u x = Inr True))"
  proof (intro exI conjI)
    show "?rs = [route_off] @ route_22002 # [route_10]" by simp
    show "enabled route_22002" by (simp add: route_22002_def)
    show "patternTest no_regex ?u route_22002 = Inr True" by (rule m)
    show "\<forall>x \<in> set [route_off]. \<not> (enabled x \<and> patternTest no_regex ?u x = Inr True)"
      by (simp add: route_off_def)
  qed
  then have 1: "findMatchingRoute no_regex ?u ?rs = Inr (Some route_22002)"
    using findMatchingRoute_first_enabled_match [of no_regex ?u ?rs route_22002] by blast
  have "\<forall>x \<in> set ?rs. \<not> (enabled x \<and> patternTest no_regex ?v x = Inr True)"
    by (simp add: route_off_def route_22002_def route_10_def patternTest_def js_includes_def
        sublist_code)
  then have 2: "findMatchingRoute no_regex ?v ?rs = Inr None"
    using findMatchingRoute_first_enabled_match [of no_regex ?v ?rs route_22002] by blast
  show ?thesis using 1 2 by blast
qed


lemma find_skip_failing:
  "\<not> P r \<Longrightarrow> find P (pre @ r # post) = find P (pre @ post)"
  by (induction pre) auto

text \<open>
  Claim C5. When a rule of pattern type \<open>regex\<close> has a pattern that \<open>new RegExp\<close> rejects,
  \<open>findMatchingRoute\<close> does not throw on any URL and any rule list containing the rule:
  the rule's pattern test is false, the rule is never the result by that test, and the
  result is the one for the list without the rule, so matching continues with the
  remaining rules.
\<close>

theorem findMatchingRoute_invalid_regex_skipped:
  assumes "patternType r = Regex" and "RegExp (pattern r) = Inl e"
  shows "patternTest RegExp url r = Inr False
    \<and> (\<exists>res. findMatchingRoute RegExp url (pre @ r # post) = Inr res)
    \<and> findMatchingRoute RegExp url (pre @ r # post) = findMatchingRoute RegExp url (pre @ post)"
proof -
  have t: "patternTest RegExp url r = Inr False"
    using assms by (simp add: patternTest_def try_catch_def)
  then have "\<not> (enabled r \<and> patternTest RegExp url r = Inr True)" by simp
  then show ?thesis
    using t by (simp add: findMatchingRoute_find find_skip_failing)
qed

theorem findMatchingRoute_invalid_regex_skipped_witness:
  "findMatchingRoute sample_RegExp ''https://10.0.0.5:22002/x'' [route_bad_regex, route_22002]
     = Inr (Some route_22002)"
proof -
  have a: "patternType route_bad_regex = Regex"
    by (simp add: route_bad_regex_def)
  have b: "sample_RegExp (pattern route_bad_regex) = Inl SyntaxError"
    by (simp add: route_bad_regex_def sample_RegExp_def)
  have "findMatchingRoute sample_RegExp ''https://10.0.0.5:22002/x'' ([] @ route_bad_regex # [route_22002])
      = findMatchingRoute sample_RegExp ''https://10.0.0.5:22002/x'' ([] @ [route_22002])"
    using findMatchingRoute_invalid_regex_skipped
      [where r = route_bad_regex and RegExp = sample_RegExp and e = SyntaxError
         and url = "''https://10.0.0.5:22002/x''" and pre = "[]" and post = "[route_22002]"] a b
    by blast
  then show ?thesis
    by (simp add: route_22002_def patternTest_def js_includes_def sublist_code)
qed

lemma sublist_single: "sublist [c] s \<longleftrightarrow> c \<in> set s"
  by (induction s) (auto simp: sublist_Cons_right)

text \<open>
  Claim C10. An enabled rule whose pattern is the empty string matches: with pattern type
  \<open>contains\<close> its test succeeds on every URL, and with pattern type \<open>port\<close> its test
  succeeds exactly on the URLs that contain the character \<open>:\<close>; placed first in the
  list, the rule is the result of \<open>findMatchingRoute\<close> whenever its test succeeds.
\<close>

theorem empty_pattern_rule_matches:
  assumes "enabled r" and "pattern r = []"
  shows "(patternType r = Contains \<longrightarrow>
            patternTest RegExp url r = Inr True
          \<and> findMatchingRoute RegExp url (r # rest) = Inr (Some r))
    \<and> (patternType r = Port \<longrightarrow>
            patternTest RegExp url r = Inr (CHR '':'' \<in> set url)
          \<and> (findMatchingRoute RegExp url (r # rest) = Inr (Some r) \<longleftrightarrow> CHR '':'' \<in> set url))"
proof (intro conjI impI)
  assume c: "patternType r = Contains"
  show t: "patternTest RegExp url r = Inr True"
    using assms c by (simp add: patternTest_def js_includes_def)
  show "findMatchingRoute RegExp url (r # rest) = Inr (Some r)"
    using assms t by simp
next
  assume c: "patternType r = Port"
  show t: "patternTest RegExp url r = Inr (CHR '':'' \<in> set url)"
    using assms c by (simp add: patternTest_def js_includes_def sublist_single)
  show "findMatchingRoute RegExp url (r # rest) = Inr (Some r) \<longleftrightarrow> CHR '':'' \<in> set url"
  proof (cases "CHR '':'' \<in> set url")
    case True
    then show ?thesis using assms t by simp
  next
    case False
    then have n: "\<not> (enabled r \<and> patternTest RegExp url r = Inr True)" using t by simp
    have "findMatchingRoute RegExp url (r # rest) \<noteq> Inr (Some r)"
    proof
      assume "findMatchingRoute RegExp url (r # rest) = Inr (Some r)"
      then have "find (\<lambda>x. enabled x \<and> patternTest RegExp url x = Inr True) (r # rest) = Some r"
        by (simp only: findMatchingRoute_find sum.inject)
      then show False using n by (auto simp: find_Some_iff)
    qed
    then show ?thesis using False by simp
  qed
qed

theorem empty_pattern_rule_matches_witness:
  "findMatchingRoute no_regex ''localhost/plain'' [route_empty_contains, route_22002]
     = Inr (Some route_empty_contains)
   \<and> findMatchingRoute no_regex ''http://a/b'' [route_empty_port, route_22002]
     = Inr (Some route_empty_port)
   \<and> patternTest no_regex ''localhost/plain'' route_empty_port = Inr False"
proof -
  have e1: "enabled route_empty_contains" and p1: "pattern route_empty_contains = []"
    and t1: "patternType route_empty_contains = Contains"
    by (simp_all add: route_empty_contains_def)
  have e2: "enabled route_empty_port" and p2: "pattern route_empty_port = []"
    and t2: "patternType route_empty_port = Port"
    by (simp_all add: route_empty_port_def)
  have "findMatchingRoute no_regex ''localhost/plain'' [route_empty_contains, route_22002]
     = Inr (Some route_empty_contains)"
    using empty_pattern_rule_matches
      [where r = route_empty_contains and RegExp = no_regex and url = "''localhost/plain''"
         and rest = "[route_22002]"] e1 p1 t1
    by blast
  moreover have "findMatchingRoute no_regex ''http://a/b'' [route_empty_port, route_22002]
     = Inr (Some route_empty_port)"
    using empty_pattern_rule_matches
      [where r = route_empty_port and RegExp = no_regex and url = "''http://a/b''"
         and rest = "[route_22002]"] e2 p2 t2
    by simp
  moreover have "patternTest no_regex ''localhost/plain'' route_empty_port = Inr False"
    using empty_pattern_rule_matches
      [where r = route_empty_port and RegExp = no_regex and url = "''localhost/plain''"
         and rest = "[]"] e2 p2 t2
    by simp
  ultimately show ?thesis by blast
qed


section \<open>Properties of the endpoint resolver\<close>

lemma extractHostFromUrl_returns:
  "extractHostFromUrl URL u = Inr (case URL u of Inl e \<Rightarrow> None | Inr h \<Rightarrow> Some h)"
  by (simp add: extractHostFromUrl_def try_catch_def split: sum.split)

lemma getEndpointForUrl_returns: "\<exists>ep. getEndpointForUrl RegExp URL cfg u = Inr ep"
proof -
  obtain res where res: "findMatchingRoute RegExp u (routes cfg) = Inr res"
    using findMatchingRoute_find by blast
  show ?thesis
    by (cases res)
       (simp_all add: getEndpointForUrl_def extractHostFromUrl_returns res Let_def)
qed

text \<open>
  Claim C2, as stated, fails: the host is not always the hostname extracted from the URL
  when parsing succeeds. A \<open>file:\<close> URL parses, with the empty hostname, and the
  resolved host is the configured default host.
\<close>

theorem getEndpointForUrl_empty_hostname_counterexample:
  "sample_URL ''file:///home/page.html'' = Inr []
   \<and> getEndpointForUrl no_regex sample_URL sample_config ''file:///home/page.html''
       = Inr \<lparr>host = ''localhost'', port = 7007, route = None\<rparr>"
  by (simp add: getEndpointForUrl_def extractHostFromUrl_returns sample_URL_def or_string_def
      sample_config_def route_22002_def patternTest_def js_includes_def sublist_code)

text \<open>
  Claim C2, amended. For every URL and config \<open>getEndpointForUrl\<close> returns an endpoint
  (it does not throw) whose host is the hostname extracted from the URL, falling back
  to the configured default host when URL parsing fails or yields the empty hostname;
  whose port is the default port, with no matched rule, when \<open>autoRouting\<close> is false or no
  rule matches; and whose port is the matched rule's \<open>mcpPort\<close>, with that rule as
  matched rule, when \<open>autoRouting\<close> is true and a rule matches.
\<close>

theorem getEndpointForUrl_resolves:
  "\<exists>ep. getEndpointForUrl RegExp URL cfg u = Inr ep
     \<and> host ep = (case URL u of
                    Inl e \<Rightarrow> host (websocket cfg)
                  | Inr h \<Rightarrow> if h = [] then host (websocket cfg) else h)
     \<and> (\<not> autoRouting cfg \<or> findMatchingRoute RegExp u (routes cfg) = Inr None \<longrightarrow>
          port ep = port (websocket cfg) \<and> route ep = None)
     \<and> (\<forall>r. autoRouting cfg \<and> findMatchingRoute RegExp u (routes cfg) = Inr (Some r) \<longrightarrow>
          port ep = mcpPort r \<and> route ep = Some r)"
proof -
  obtain res where res: "findMatchingRoute RegExp u (routes cfg) = Inr res"
    using findMatchingRoute_find by blast
  show ?thesis
    by (cases res; cases "URL u")
       (simp_all add: getEndpointForUrl_def extractHostFromUrl_returns or_string_def res Let_def)
qed

theorem getEndpointForUrl_resolves_witness:
  "(\<exists>ep. getEndpointForUrl no_regex sample_URL sample_config ''https://10.0.0.5:22002/x'' = Inr ep
     \<and> host ep = ''10.0.0.5'' \<and> port ep = 7022 \<and> route ep = Some route_22002)
   \<and> (\<exists>ep. getEndpointForUrl no_regex sample_URL sample_config_manual ''https://10.0.0.5:22002/x''
         = Inr ep
     \<and> host ep = ''10.0.0.5'' \<and> port ep = 7007 \<and> route ep = None)"
proof
  let ?u = "''https://10.0.0.5:22002/x''"
  have a: "autoRouting sample_config" by (simp add: sample_config_def)
  have m: "findMatchingRoute no_regex ?u (routes sample_config) = Inr (Some route_22002)"
    by (simp add: sample_config_def route_22002_def patternTest_def js_includes_def sublist_code)
  have h: "sample_URL ?u = Inr ''10.0.0.5''" by (simp add: sample_URL_def)
  have p: "mcpPort route_22002 = 7022" by (simp add: route_22002_def)
  obtain ep where ep: "getEndpointForUrl no_regex sample_URL sample_config ?u = Inr ep"
    "host ep = (case sample_URL ?u of
                    Inl e \<Rightarrow> host (websocket sample_config)
                  | Inr h \<Rightarrow> if h = [] then host (websocket sample_config) else h)"
    "\<forall>r. autoRouting sample_config
           \<and> findMatchingRoute no_regex ?u (routes sample_config) = Inr (Some r)
         \<longrightarrow> port ep = mcpPort r \<and> route ep = Some r"
    using getEndpointForUrl_resolves [of no_regex sample_URL sample_config ?u] by blast
  have "port ep = mcpPort route_22002 \<and> route ep = Some route_22002"
    using ep(3) a m by blast
  moreover have "host ep = ''10.0.0.5''" using ep(2) h by simp
  ultimately show "\<exists>ep. getEndpointForUrl no_regex sample_URL sample_config ?u = Inr ep
     \<and> host ep = ''10.0.0.5'' \<and> port ep = 7022 \<and> route ep = Some route_22002"
    using ep(1) p by auto
next
  let ?u = "''https://10.0.0.5:22002/x''"
  have a: "\<not> autoRouting sample_config_manual" by (simp add: sample_config_manual_def)
  have h: "sample_URL ?u = Inr ''10.0.0.5''" by (simp add: sample_URL_def)
  have p: "port (websocket sample_config_manual) = 7007" by (simp add: sample_config_manual_def)
  obtain ep where ep: "getEndpointForUrl no_regex sample_URL sample_config_manual ?u = Inr ep"
    "host ep = (case sample_URL ?u of
                    Inl e \<Rightarrow> host (websocket sample_config_manual)
                  | Inr h \<Rightarrow> if h = [] then host (websocket sample_config_manual) else h)"
    "\<not> autoRouting sample_config_manual
       \<or> findMatchingRoute no_regex ?u (routes sample_config_manual) = Inr None
     \<longrightarrow> port ep = port (websocket sample_config_manual) \<and> route ep = None"
    using getEndpointForUrl_resolves [of no_regex sample_URL sample_config_manual ?u] by blast
  have "port ep = 7007 \<and> route ep = None" using ep(3) a p by simp
  moreover have "host ep = ''10.0.0.5''" using ep(2) h by simp
  ultimately show "\<exists>ep. getEndpointForUrl no_regex sample_URL sample_config_manual ?u = Inr ep
     \<and> host ep = ''10.0.0.5'' \<and> port ep = 7007 \<and> route ep = None"
    using ep(1) by auto
qed

section \<open>Properties of route tracking\<close>

text \<open>
  Claim C9, as stated, fails, on three kinds of message. A \<open>DOM_ELEMENT_POINTED\<close> message
  whose sender tab has the identifier \<open>0\<close> is resolved and dispatched, but the store gets
  no entry, since the listener tests \<open>if (tabId)\<close>. A \<open>DOM_ELEMENT_POINTED\<close> message without
  \<open>data\<close> is ignored altogether, whatever its tab. And a message handled before
  \<open>currentConfig\<close> has been assigned makes the listener throw in \<open>getEndpointForUrl\<close>, before
  \<open>activeRoutes.set\<close>: the store gets no entry, whatever the tab.
\<close>

theorem onMessage_tab_zero_counterexample:
  "onMessage no_regex sample_URL (Some sample_config) True pointed_request (sender_of_tab 0)
       Map.empty
     = (Map.empty, Inr (Some (''10.0.0.5'', 7022)))
   \<and> onMessage no_regex sample_URL (Some sample_config) True pointed_request_no_data
       (sender_of_tab 7) Map.empty
     = (Map.empty, Inr None)
   \<and> onMessage no_regex sample_URL None False pointed_request (sender_of_tab 7) Map.empty
     = (Map.empty, Inl TypeError)"
  by (simp add: onMessage_def getEndpointForUrl_current_def pointed_request_def
      pointed_request_no_data_def sender_of_tab_def
      truthy_number_def getEndpointForUrl_def extractHostFromUrl_returns sample_URL_def
      or_string_def sample_config_def route_22002_def patternTest_def js_includes_def sublist_code)

text \<open>
  Claim C9, amended. For every inbound \<open>DOM_ELEMENT_POINTED\<close> message that carries \<open>data\<close>,
  is handled once \<open>currentConfig\<close> has been assigned, and whose sender tab identifier is
  present and not zero: \<open>getEndpointForUrl\<close> returns an endpoint for the message's URL, and
  the listener leaves the store with the entry of that tab created or overwritten with
  the matched rule of that endpoint (none when no rule matched), every other entry being
  kept, whether or not \<open>elementSender\<close> has been created yet; the listener then issues
  \<open>sendElement\<close> to the endpoint when \<open>elementSender\<close> has been created, and throws otherwise.
  And \<open>onRemoved\<close> deletes the entry of the closed tab and keeps every other.
\<close>

theorem activeRoutes_tracking:
  assumes "req_type request = ''DOM_ELEMENT_POINTED''" and "data request = Some d"
    and "tab sender = Some t" and "tab_id t = Some n" and "n \<noteq> 0"
  shows "(\<exists>ep. getEndpointForUrl RegExp URL cfg (or_string (data_url d) (or_string (tab_url t) []))
              = Inr ep
           \<and> onMessage RegExp URL (Some cfg) elementSender request sender store
              = (store(n \<mapsto> route ep),
                 if elementSender then Inr (Some (host ep, port ep)) else Inl TypeError))
    \<and> onRemoved n store n = None
    \<and> (\<forall>k. k \<noteq> n \<longrightarrow> onRemoved n store k = store k)"
proof -
  obtain ep where ep:
    "getEndpointForUrl RegExp URL cfg (or_string (data_url d) (or_string (tab_url t) [])) = Inr ep"
    using getEndpointForUrl_returns by blast
  have "onMessage RegExp URL (Some cfg) elementSender request sender store
      = (store(n \<mapsto> route ep),
         if elementSender then Inr (Some (host ep, port ep)) else Inl TypeError)"
    using assms ep by (simp add: onMessage_def getEndpointForUrl_current_def truthy_number_def)
  then show ?thesis using ep by (simp add: onRemoved_def)
qed

theorem activeRoutes_tracking_witness:
  "onMessage no_regex sample_URL (Some sample_config) True pointed_request (sender_of_tab 7)
       Map.empty
     = (Map.empty(7 \<mapsto> Some route_22002), Inr (Some (''10.0.0.5'', 7022)))
   \<and> onMessage no_regex sample_URL (Some sample_config) False pointed_request (sender_of_tab 7)
       Map.empty
     = (Map.empty(7 \<mapsto> Some route_22002), Inl TypeError)
   \<and> onRemoved 7 (Map.empty(7 \<mapsto> Some route_22002, 8 \<mapsto> None)) 7 = None
   \<and> onRemoved 7 (Map.empty(7 \<mapsto> Some route_22002, 8 \<mapsto> None)) 8 = Some None"
proof -
  let ?u = "''https://10.0.0.5:22002/x''"
  let ?t = "\<lparr>tab_id = Some 7, tab_url = None\<rparr>"
  let ?d = "\<lparr>data_url = Some ?u\<rparr>"
  let ?m = "Map.empty(7 \<mapsto> Some route_22002, 8 \<mapsto> None) :: activeRoutes"
  have g: "getEndpointForUrl no_regex sample_URL sample_config ?u
      = Inr \<lparr>host = ''10.0.0.5'', port = 7022, route = Some route_22002\<rparr>"
    by (simp add: getEndpointForUrl_def extractHostFromUrl_returns sample_URL_def or_string_def
        sample_config_def route_22002_def patternTest_def js_includes_def sublist_code)
  have u: "or_string (data_url ?d) (or_string (tab_url ?t) []) = ?u"
    by (simp add: or_string_def)
  have pre: "req_type pointed_request = ''DOM_ELEMENT_POINTED''"
    "data pointed_request = Some ?d" "tab (sender_of_tab 7) = Some ?t" "tab_id ?t = Some 7"
    "(7::int) \<noteq> 0"
    by (simp_all add: pointed_request_def sender_of_tab_def)
  note inst = activeRoutes_tracking
      [where request = pointed_request and d = ?d and sender = "sender_of_tab 7" and t = ?t
         and n = 7 and RegExp = no_regex and URL = sample_URL and cfg = sample_config,
       OF pre]
  have "\<exists>ep. getEndpointForUrl no_regex sample_URL sample_config
                (or_string (data_url ?d) (or_string (tab_url ?t) [])) = Inr ep
           \<and> onMessage no_regex sample_URL (Some sample_config) True pointed_request
                (sender_of_tab 7) Map.empty
              = (Map.empty(7 \<mapsto> route ep),
                 if True then Inr (Some (host ep, port ep)) else Inl TypeError)"
    using inst [where store = Map.empty and elementSender = True] by blast
  then have 1: "onMessage no_regex sample_URL (Some sample_config) True pointed_request
       (sender_of_tab 7) Map.empty
     = (Map.empty(7 \<mapsto> Some route_22002), Inr (Some (''10.0.0.5'', 7022)))"
    using g u by auto
  have "\<exists>ep. getEndpointForUrl no_regex sample_URL sample_config
                (or_string (data_url ?d) (or_string (tab_url ?t) [])) = Inr ep
           \<and> onMessage no_regex sample_URL (Some sample_config) False pointed_request
                (sender_of_tab 7) Map.empty
              = (Map.empty(7 \<mapsto> route ep),
                 if False then Inr (Some (host ep, port ep)) else Inl TypeError)"
    using inst [where store = Map.empty and elementSender = False] by blast
  then have 4: "onMessage no_regex sample_URL (Some sample_config) False pointed_request
       (sender_of_tab 7) Map.empty
     = (Map.empty(7 \<mapsto> Some route_22002), Inl TypeError)"
    using g u by auto
  have 2: "onRemoved 7 ?m 7 = None" using inst [where store = ?m] by blast
  have "\<forall>k. k \<noteq> 7 \<longrightarrow> onRemoved 7 ?m k = ?m k" using inst [where store = ?m] by blast
  then have "onRemoved 7 ?m 8 = ?m 8" by simp
  then have 3: "onRemoved 7 ?m 8 = Some None" by simp
  show ?thesis using 1 4 2 3 by blast
qed


section \<open>Invariants of the connection lifecycle\<close>

lemma emit_fields [simp]:
  "ws (emit i st e w) = ws w"
  "currentHost (emit i st e w) = currentHost w"
  "currentPort (emit i st e w) = currentPort w"
  "idleTimeout (emit i st e w) = idleTimeout w"
  "readyState (emit i st e w) = readyState w"
  "sockets (emit i st e w) = sockets w"
  "timers (emit i st e w) = timers w"
  "next_timer (emit i st e w) = next_timer w"
  "waiting (emit i st e w) = waiting w"
  "sends (emit i st e w) = sends w"
  "trace (emit i st e w) = trace w @ [Status i st e]"
  "now (emit i st e w) = now w"
  "timeout_due (emit i st e w) = timeout_due w"
  "idle_due (emit i st e w) = idle_due w"
  by (simp_all add: emit_def)

lemma clearIdleTimer_fields [simp]:
  "ws (clearIdleTimer w) = ws w"
  "currentHost (clearIdleTimer w) = currentHost w"
  "currentPort (clearIdleTimer w) = currentPort w"
  "idleTimeout (clearIdleTimer w) = None"
  "readyState (clearIdleTimer w) = readyState w"
  "sockets (clearIdleTimer w) = sockets w"
  "timers (clearIdleTimer w) = (case idleTimeout w of None \<Rightarrow> timers w | Some t \<Rightarrow> removeAll t (timers w))"
  "next_timer (clearIdleTimer w) = next_timer w"
  "waiting (clearIdleTimer w) = waiting w"
  "sends (clearIdleTimer w) = sends w"
  "trace (clearIdleTimer w) = trace w"
  "now (clearIdleTimer w) = now w"
  "timeout_due (clearIdleTimer w) = timeout_due w"
  "idle_due (clearIdleTimer w) = idle_due w"
  by (simp_all add: clearIdleTimer_def split: option.split)

lemma startIdleTimer_fields [simp]:
  "ws (startIdleTimer w) = ws w"
  "currentHost (startIdleTimer w) = currentHost w"
  "currentPort (startIdleTimer w) = currentPort w"
  "idleTimeout (startIdleTimer w) = Some (next_timer w)"
  "readyState (startIdleTimer w) = readyState w"
  "sockets (startIdleTimer w) = sockets w"
  "timers (startIdleTimer w) = timers w @ [next_timer w]"
  "next_timer (startIdleTimer w) = Suc (next_timer w)"
  "waiting (startIdleTimer w) = waiting w"
  "sends (startIdleTimer w) = sends w"
  "trace (startIdleTimer w) = trace w"
  "now (startIdleTimer w) = now w"
  "timeout_due (startIdleTimer w) = timeout_due w"
  "idle_due (startIdleTimer w) = (idle_due w)(next_timer w := now w + IDLE_DURATION)"
  by (simp_all add: startIdleTimer_def)

lemma disconnect_fields [simp]:
  "ws (disconnect w) = None"
  "currentHost (disconnect w) = currentHost w"
  "currentPort (disconnect w) = currentPort w"
  "idleTimeout (disconnect w) = None"
  "readyState (disconnect w) = (case ws w of None \<Rightarrow> readyState w | Some s \<Rightarrow> (readyState w)(s := WS_CLOSED))"
  "sockets (disconnect w) = sockets w"
  "timers (disconnect w) = (case idleTimeout w of None \<Rightarrow> timers w | Some t \<Rightarrow> removeAll t (timers w))"
  "next_timer (disconnect w) = next_timer w"
  "waiting (disconnect w) = waiting w"
  "sends (disconnect w) = sends w"
  "trace (disconnect w) = trace w @ (case ws w of None \<Rightarrow> [] | Some s \<Rightarrow> [SocketClose s])"
  "now (disconnect w) = now w"
  "timeout_due (disconnect w) = timeout_due w"
  "idle_due (disconnect w) = idle_due w"
  by (simp_all add: disconnect_def Let_def split: option.split)

lemma target_switch_fields [simp]:
  "currentHost (target_switch h p w) = Some h"
  "currentPort (target_switch h p w) = Some p"
  "sockets (target_switch h p w) = sockets w"
  "next_timer (target_switch h p w) = next_timer w"
  "waiting (target_switch h p w) = waiting w"
  "sends (target_switch h p w) = sends w"
  "now (target_switch h p w) = now w"
  "timeout_due (target_switch h p w) = timeout_due w"
  "idle_due (target_switch h p w) = idle_due w"
  by (simp_all add: target_switch_def)

lemma handleConnectionChange_cases:
  "handleConnectionChange i h p w =
     (if valid_endpoint h p then (True, target_switch h p w)
      else (False, emit i ERROR (Some (if h = [] \<or> trim h = [] then Invalid_host else Invalid_port_number)) w))"
  by (auto simp: handleConnectionChange_def valid_endpoint_def target_switch_def Let_def)

lemma sendElement_cases:
  "sendElement i h p ok w =
     (if \<not> valid_endpoint h p then
        emit i ERROR (Some (if h = [] \<or> trim h = [] then Invalid_host else Invalid_port_number))
          (clearIdleTimer w)
      else if isConnected (target_switch h p (clearIdleTimer w)) then
        sendElement_resume i ok True (emit i CONNECTED None (target_switch h p (clearIdleTimer w)))
      else open_socket i h p (target_switch h p (clearIdleTimer w)))"
  by (simp add: sendElement_def ensureConnection_def handleConnectionChange_cases Let_def
      waitForConnection_def sendElement_resume_def open_socket_def emit_def)

lemma statuses_append [simp]: "statuses i (xs @ ys) = statuses i xs @ statuses i ys"
  by (induction i xs rule: statuses.induct) simp_all

lemma frames_append [simp]: "frames i (xs @ ys) = frames i xs @ frames i ys"
  by (induction i xs rule: frames.induct) simp_all

lemma closes_append [simp]: "closes (xs @ ys) = closes xs @ closes ys"
  by (induction xs rule: closes.induct) simp_all

lemma transmit_fields [simp]:
  "ws (sendElement_resume i ok True w) = ws w"
  "currentHost (sendElement_resume i ok True w) = currentHost w"
  "currentPort (sendElement_resume i ok True w) = currentPort w"
  "idleTimeout (sendElement_resume i ok True w) = Some (next_timer w)"
  "readyState (sendElement_resume i ok True w) = readyState w"
  "sockets (sendElement_resume i ok True w) = sockets w"
  "timers (sendElement_resume i ok True w) = timers w @ [next_timer w]"
  "next_timer (sendElement_resume i ok True w) = Suc (next_timer w)"
  "waiting (sendElement_resume i ok True w) = waiting w"
  "sends (sendElement_resume i ok True w) = sends w"
  "trace (sendElement_resume i ok True w) =
     trace w @ Status i SENDING None #
       (case ws w of
          None \<Rightarrow> [Status i ERROR (Some (Exception_message TypeError))]
        | Some s \<Rightarrow> if ok then [SocketSend s i, Status i SENT None]
                    else [Status i ERROR (Some (Exception_message TypeError))])"
  "now (sendElement_resume i ok True w) = now w"
  "timeout_due (sendElement_resume i ok True w) = timeout_due w"
  "idle_due (sendElement_resume i ok True w) = (idle_due w)(next_timer w := now w + IDLE_DURATION)"
  by (simp_all add: sendElement_resume_def Let_def split: option.split)

lemma resume_cases:
  "resume ok c w (i, s, h, p) =
     (if c then sendElement_resume i ok True (emit i CONNECTED None w)
      else disconnect (emit i ERROR (Some (Connection_timeout_to h p)) w))"
  by (simp add: resume_def ensureConnection_resume_def sendElement_resume_def)

lemma resume_kept [simp]:
  "sockets (resume ok c w x) = sockets w"
  "waiting (resume ok c w x) = waiting w"
  "sends (resume ok c w x) = sends w"
  "currentHost (resume ok c w x) = currentHost w"
  "currentPort (resume ok c w x) = currentPort w"
  "now (resume ok c w x) = now w"
  "timeout_due (resume ok c w x) = timeout_due w"
  by (cases x; simp add: resume_cases)+

lemma resume_True_kept [simp]:
  "ws (resume ok True w x) = ws w"
  "readyState (resume ok True w x) = readyState w"
  by (cases x; simp add: resume_cases)+

lemma foldl_resume_kept [simp]:
  "sockets (foldl (resume ok c) w xs) = sockets w"
  "waiting (foldl (resume ok c) w xs) = waiting w"
  "sends (foldl (resume ok c) w xs) = sends w"
  "currentHost (foldl (resume ok c) w xs) = currentHost w"
  "currentPort (foldl (resume ok c) w xs) = currentPort w"
  "now (foldl (resume ok c) w xs) = now w"
  "timeout_due (foldl (resume ok c) w xs) = timeout_due w"
  by (induction xs arbitrary: w; simp)+

lemma foldl_resume_True_kept [simp]:
  "ws (foldl (resume ok True) w xs) = ws w"
  "readyState (foldl (resume ok True) w xs) = readyState w"
  by (induction xs arbitrary: w; simp)+

lemma resume_trace:
  "\<exists>new. trace (resume ok c w x) = trace w @ new
     \<and> (\<forall>j. j \<noteq> fst x \<longrightarrow> statuses j new = [] \<and> frames j new = [])
     \<and> (statuses (fst x) new = [ERROR] \<and> frames (fst x) new = [] \<and> \<not> c
        \<or> statuses (fst x) new = [CONNECTED, SENDING, SENT] \<and> c
        \<or> statuses (fst x) new = [CONNECTED, SENDING, ERROR] \<and> frames (fst x) new = [] \<and> c)"
  by (cases x) (auto simp: resume_cases split: option.split)

lemma trace_ok_resume:
  assumes "trace_ok W n (trace w)" and "fst x \<in> W"
  shows "trace_ok (W - {fst x}) n (trace (resume ok c w x))"
proof -
  obtain new where new: "trace (resume ok c w x) = trace w @ new"
    "\<forall>j. j \<noteq> fst x \<longrightarrow> statuses j new = [] \<and> frames j new = []"
    "statuses (fst x) new = [ERROR] \<or> statuses (fst x) new = [CONNECTED, SENDING, SENT]
      \<or> statuses (fst x) new = [CONNECTED, SENDING, ERROR]"
    using resume_trace [of ok c w x] by blast
  have cur: "statuses (fst x) (trace w) = [CONNECTING]"
    using assms by (simp add: trace_ok_def)
  have lt: "\<not> n \<le> fst x"
    using assms cur by (auto simp: trace_ok_def)
  show ?thesis
    unfolding trace_ok_def
  proof (intro allI)
    fix i
    show "(i \<in> W - {fst x} \<longrightarrow>
            statuses i (trace (resume ok c w x)) = [CONNECTING]
          \<and> frames i (trace (resume ok c w x)) = [])
       \<and> (n \<le> i \<longrightarrow> statuses i (trace (resume ok c w x)) = []
          \<and> frames i (trace (resume ok c w x)) = [])
       \<and> status_order_ok (statuses i (trace (resume ok c w x)))"
    proof (cases "i = fst x")
      case True
      then show ?thesis using new(1,3) cur lt by (auto simp: status_order_ok_def)
    next
      case False
      then show ?thesis using new(1,2) assms(1) by (simp add: trace_ok_def)
    qed
  qed
qed

lemma trace_ok_mono: "trace_ok W n tr \<Longrightarrow> W' \<subseteq> W \<Longrightarrow> trace_ok W' n tr"
  by (auto simp: trace_ok_def)

lemma trace_ok_foldl_resume:
  "trace_ok W n (trace w) \<Longrightarrow> distinct (map fst xs) \<Longrightarrow> fst ` set xs \<subseteq> W
     \<Longrightarrow> trace_ok (W - fst ` set xs) n (trace (foldl (resume ok c) w xs))"
proof (induction xs arbitrary: w W)
  case Nil
  then show ?case by simp
next
  case (Cons x xs)
  have 1: "trace_ok (W - {fst x}) n (trace (resume ok c w x))"
    using Cons.prems by (intro trace_ok_resume) auto
  have "fst x \<notin> fst ` set xs" using Cons.prems(2) by simp
  moreover have "fst ` set xs \<subseteq> W" using Cons.prems(3) by simp
  ultimately have 2: "fst ` set xs \<subseteq> W - {fst x}" by blast
  have "trace_ok (W - {fst x} - fst ` set xs) n (trace (foldl (resume ok c) (resume ok c w x) xs))"
    using Cons.IH [OF 1 _ 2] Cons.prems(2) by simp
  moreover have "W - {fst x} - fst ` set xs = W - fst ` set (x # xs)" by auto
  ultimately show ?case by simp
qed

lemma target_switch_trace:
  "\<exists>cl. trace (target_switch h p w) = trace w @ cl \<and> (\<forall>j. statuses j cl = [] \<and> frames j cl = [])"
  by (auto simp: target_switch_def split: option.split)

lemma target_switch_ws: "ws (target_switch h p w) = Some s \<Longrightarrow> ws w = Some s"
  by (auto simp: target_switch_def split: if_splits)

lemma target_switch_timers: "set (timers (target_switch h p w)) \<subseteq> set (timers w)"
  by (auto simp: target_switch_def split: option.split)


lemma open_socket_fields [simp]:
  "ws (open_socket i h p w) = Some (sockets w)"
  "currentHost (open_socket i h p w) = currentHost w"
  "currentPort (open_socket i h p w) = currentPort w"
  "idleTimeout (open_socket i h p w) = idleTimeout w"
  "readyState (open_socket i h p w) = (readyState w)(sockets w := WS_CONNECTING)"
  "sockets (open_socket i h p w) = Suc (sockets w)"
  "timers (open_socket i h p w) = timers w"
  "next_timer (open_socket i h p w) = next_timer w"
  "waiting (open_socket i h p w) = waiting w @ [(i, sockets w, h, p)]"
  "sends (open_socket i h p w) = sends w"
  "trace (open_socket i h p w) = trace w @ [Status i CONNECTING None, SocketNew (sockets w) h p]"
  "now (open_socket i h p w) = now w"
  "timeout_due (open_socket i h p w) = (timeout_due w)(i := now w + CONNECTION_TIMEOUT)"
  "idle_due (open_socket i h p w) = idle_due w"
  by (simp_all add: open_socket_def)

lemma sendElement_kept [simp]:
  "sends (sendElement i h p ok w) = sends w"
  by (simp add: sendElement_cases)

lemma sendElement_trace:
  "\<exists>new. trace (sendElement i h p ok w) = trace w @ new
     \<and> (\<forall>j. j \<noteq> i \<longrightarrow> statuses j new = [] \<and> frames j new = [])
     \<and> (waiting (sendElement i h p ok w) = waiting w
          \<and> (statuses i new = [ERROR] \<or> statuses i new = [CONNECTED, SENDING, SENT]
              \<or> statuses i new = [CONNECTED, SENDING, ERROR])
        \<or> waiting (sendElement i h p ok w) = waiting w @ [(i, sockets w, h, p)]
          \<and> statuses i new = [CONNECTING] \<and> frames i new = [])"
proof -
  obtain cl where cl: "trace (target_switch h p (clearIdleTimer w)) = trace w @ cl"
    "\<forall>j. statuses j cl = [] \<and> frames j cl = []"
    using target_switch_trace [of h p "clearIdleTimer w"] by auto
  show ?thesis
    using cl by (auto simp: sendElement_cases split: option.split)
qed

lemma trace_ok_sendElement:
  assumes "trace_ok (waiting_ids w) (sends w) (trace w)"
  shows "trace_ok (waiting_ids (sendElement (sends w) h p ok (w\<lparr>sends := Suc (sends w)\<rparr>)))
           (Suc (sends w))
           (trace (sendElement (sends w) h p ok (w\<lparr>sends := Suc (sends w)\<rparr>)))"
proof -
  let ?n = "sends w"
  let ?w0 = "w\<lparr>sends := Suc ?n\<rparr>"
  let ?w' = "sendElement ?n h p ok ?w0"
  obtain new where new: "trace ?w' = trace w @ new"
    "\<forall>j. j \<noteq> ?n \<longrightarrow> statuses j new = [] \<and> frames j new = []"
    "waiting ?w' = waiting w
          \<and> (statuses ?n new = [ERROR] \<or> statuses ?n new = [CONNECTED, SENDING, SENT]
              \<or> statuses ?n new = [CONNECTED, SENDING, ERROR])
        \<or> waiting ?w' = waiting w @ [(?n, sockets w, h, p)]
          \<and> statuses ?n new = [CONNECTING] \<and> frames ?n new = []"
    using sendElement_trace [of ?n h p ok ?w0] by auto
  have fresh: "statuses ?n (trace w) = []" "frames ?n (trace w) = []" "?n \<notin> waiting_ids w"
    using assms by (auto simp: trace_ok_def)
  show ?thesis
    unfolding trace_ok_def
  proof (intro allI)
    fix i
    show "(i \<in> waiting_ids ?w' \<longrightarrow> statuses i (trace ?w') = [CONNECTING] \<and> frames i (trace ?w') = [])
       \<and> (Suc ?n \<le> i \<longrightarrow> statuses i (trace ?w') = [] \<and> frames i (trace ?w') = [])
       \<and> status_order_ok (statuses i (trace ?w'))"
    proof (cases "i = ?n")
      case True
      then show ?thesis
        using new(1,3) fresh by (auto simp: status_order_ok_def waiting_ids_def)
    next
      case False
      have "statuses i (trace ?w') = statuses i (trace w)" "frames i (trace ?w') = frames i (trace w)"
        using False new(1,2) by simp_all
      moreover have "i \<in> waiting_ids ?w' \<longrightarrow> i \<in> waiting_ids w"
        using False new(3) by (auto simp: waiting_ids_def)
      ultimately show ?thesis
        using assms by (auto simp: trace_ok_def)
    qed
  qed
qed

lemma find_fst_Some: "find (\<lambda>x. fst x = i) xs = Some x \<Longrightarrow> fst x = i \<and> x \<in> set xs"
  by (induction xs) (auto split: if_splits)

lemma trace_ok_step:
  assumes "trace_ok (waiting_ids w) (sends w) (trace w)" and "distinct (map fst (waiting w))"
    and "step a w = Some w'"
  shows "trace_ok (waiting_ids w') (sends w') (trace w')"
proof (cases a)
  case (SendElement h p ok)
  then show ?thesis using assms(1,3) trace_ok_sendElement by auto
next
  case (SocketOpens s ok)
  let ?xs = "filter (\<lambda>x. fst (snd x) = s) (waiting w)"
  let ?w1 = "w\<lparr>readyState := (readyState w)(s := WS_OPEN),
                waiting := filter (\<lambda>x. fst (snd x) \<noteq> s) (waiting w)\<rparr>"
  have w': "w' = foldl (resume ok True) ?w1 ?xs"
    using assms(3) SocketOpens by (simp split: if_splits)
  have d: "distinct (map fst ?xs)" using assms(2) by (simp add: distinct_map_filter)
  have sub: "fst ` set ?xs \<subseteq> waiting_ids w" by (auto simp: waiting_ids_def)
  have "trace_ok (waiting_ids w) (sends w) (trace ?w1)" using assms(1) by simp
  then have "trace_ok (waiting_ids w - fst ` set ?xs) (sends w) (trace w')"
    unfolding w' using d sub by (rule trace_ok_foldl_resume)
  moreover have "waiting_ids w' \<subseteq> waiting_ids w - fst ` set ?xs"
  proof
    fix i assume "i \<in> waiting_ids w'"
    then obtain x where x: "x \<in> set (waiting w)" "fst (snd x) \<noteq> s" "fst x = i"
      by (auto simp: w' waiting_ids_def)
    have "i \<notin> fst ` set ?xs"
    proof
      assume "i \<in> fst ` set ?xs"
      then obtain y where y: "y \<in> set (waiting w)" "fst (snd y) = s" "fst y = i" by auto
      then have "x = y" using x assms(2) by (metis distinct_map inj_onD)
      then show False using x(2) y(2) by simp
    qed
    then show "i \<in> waiting_ids w - fst ` set ?xs" using x by (auto simp: waiting_ids_def)
  qed
  ultimately show ?thesis using w' by (auto intro: trace_ok_mono)
next
  case (ConnectionTimeout i)
  then obtain x where x: "find (\<lambda>x. fst x = i) (waiting w) = Some x"
    and w': "w' = resume True False (w\<lparr>waiting := filter (\<lambda>y. fst y \<noteq> i) (waiting w)\<rparr>) x"
    using assms(3) by (auto split: option.splits if_splits)
  have fx: "fst x = i" "x \<in> set (waiting w)" using find_fst_Some [OF x] by auto
  have "trace_ok (waiting_ids w - {fst x}) (sends w) (trace w')"
    unfolding w' using assms(1) fx by (intro trace_ok_resume) (auto simp: waiting_ids_def)
  moreover have "waiting_ids w' \<subseteq> waiting_ids w - {fst x}"
    using fx by (auto simp: w' waiting_ids_def)
  ultimately show ?thesis using w' by (auto intro: trace_ok_mono)
next
  case (IdleTimerFires t)
  then have w': "w' = disconnect (w\<lparr>timers := removeAll t (timers w)\<rparr>)"
    using assms(3) by (simp split: if_splits)
  show ?thesis using assms(1)
    by (auto simp: w' trace_ok_def waiting_ids_def split: option.split)
next
  case (SocketDrops s)
  then have w': "w' = w\<lparr>readyState := (readyState w)(s := WS_CONNECTING)\<rparr>"
    using assms(3) by (simp split: if_splits)
  show ?thesis using assms(1) by (simp add: w' waiting_ids_def)
next
  case (Advance d)
  then have w': "w' = w\<lparr>now := now w + d\<rparr>"
    using assms(3) by (simp split: if_splits)
  show ?thesis using assms(1) by (simp add: w' waiting_ids_def)
qed

lemma distinct_waiting_step:
  assumes "trace_ok (waiting_ids w) (sends w) (trace w)" and "distinct (map fst (waiting w))"
    and "step a w = Some w'"
  shows "distinct (map fst (waiting w'))"
proof (cases a)
  case (SendElement h p ok)
  let ?w0 = "w\<lparr>sends := Suc (sends w)\<rparr>"
  have fresh: "sends w \<notin> fst ` set (waiting w)"
    using assms(1) by (auto simp: trace_ok_def waiting_ids_def)
  have "waiting w' = waiting w \<or> waiting w' = waiting w @ [(sends w, sockets w, h, p)]"
    using sendElement_trace [of "sends w" h p ok ?w0] assms(3) SendElement by auto
  then show ?thesis using assms(2) fresh by auto
next
  case (SocketOpens s ok)
  then show ?thesis using assms(2,3) by (auto split: if_splits simp: distinct_map_filter)
next
  case (ConnectionTimeout i)
  then show ?thesis using assms(2,3) by (auto split: option.splits if_splits simp: distinct_map_filter)
next
  case (IdleTimerFires t)
  then show ?thesis using assms(2,3) by (auto split: if_splits)
next
  case (SocketDrops s)
  then show ?thesis using assms(2,3) by (auto split: if_splits)
next
  case (Advance d)
  then show ?thesis using assms(2,3) by (auto split: if_splits)
qed

lemma ws_bound_step:
  assumes "\<forall>s. ws w = Some s \<longrightarrow> s < sockets w" and "step a w = Some w'"
  shows "\<forall>s. ws w' = Some s \<longrightarrow> s < sockets w'"
proof (cases a)
  case (SendElement h p ok)
  then show ?thesis using assms
    by (auto simp: sendElement_cases dest!: target_switch_ws split: if_splits)
next
  case (SocketOpens s ok)
  then show ?thesis using assms by (auto split: if_splits)
next
  case (ConnectionTimeout i)
  then show ?thesis using assms by (cases "the (find (\<lambda>x. fst x = i) (waiting w))")
     (auto split: option.splits if_splits simp: resume_cases)
next
  case (IdleTimerFires t)
  then show ?thesis using assms by (auto split: if_splits)
next
  case (SocketDrops s)
  then show ?thesis using assms by (auto split: if_splits)
next
  case (Advance d)
  then show ?thesis using assms by (auto split: if_splits)
qed

lemma timers_fresh_resume: "timers_fresh w \<Longrightarrow> timers_fresh (resume ok c w x)"
  by (cases x) (auto simp: timers_fresh_def resume_cases split: option.splits if_splits)

lemma timers_fresh_foldl_resume: "timers_fresh w \<Longrightarrow> timers_fresh (foldl (resume ok c) w xs)"
  by (induction xs arbitrary: w) (simp_all add: timers_fresh_resume)

lemma timers_fresh_target_switch:
  "timers_fresh w \<Longrightarrow> timers_fresh (target_switch h p w)"
  by (auto simp: timers_fresh_def target_switch_def split: option.splits if_splits)

lemma timers_fresh_clearIdleTimer: "timers_fresh w \<Longrightarrow> timers_fresh (clearIdleTimer w)"
  by (auto simp: timers_fresh_def split: option.splits if_splits)

lemma timers_fresh_sendElement: "timers_fresh w \<Longrightarrow> timers_fresh (sendElement i h p ok w)"
proof -
  assume "timers_fresh w"
  then have "timers_fresh (target_switch h p (clearIdleTimer w))"
    by (intro timers_fresh_target_switch timers_fresh_clearIdleTimer)
  moreover have "timers_fresh (clearIdleTimer w)"
    using \<open>timers_fresh w\<close> by (rule timers_fresh_clearIdleTimer)
  ultimately show ?thesis
    by (auto simp: sendElement_cases timers_fresh_def)
qed

lemma timers_fresh_step:
  assumes "timers_fresh w" and "step a w = Some w'"
  shows "timers_fresh w'"
proof (cases a)
  case (SendElement h p ok)
  have "timers_fresh (w\<lparr>sends := Suc (sends w)\<rparr>)" using assms(1) by (simp add: timers_fresh_def)
  then show ?thesis using assms(2) SendElement by (auto intro: timers_fresh_sendElement)
next
  case (SocketOpens s ok)
  have "timers_fresh (w\<lparr>readyState := (readyState w)(s := WS_OPEN),
                waiting := filter (\<lambda>x. fst (snd x) \<noteq> s) (waiting w)\<rparr>)"
    using assms(1) by (simp add: timers_fresh_def)
  then show ?thesis using assms(2) SocketOpens
    by (auto split: if_splits intro: timers_fresh_foldl_resume)
next
  case (ConnectionTimeout i)
  have "timers_fresh (w\<lparr>waiting := filter (\<lambda>y. fst y \<noteq> i) (waiting w)\<rparr>)"
    using assms(1) by (simp add: timers_fresh_def)
  then show ?thesis using assms(2) ConnectionTimeout
    by (auto split: option.splits if_splits intro: timers_fresh_resume)
next
  case (IdleTimerFires t)
  then show ?thesis using assms by (auto split: if_splits option.splits simp: timers_fresh_def)
next
  case (SocketDrops s)
  then show ?thesis using assms by (auto split: if_splits simp: timers_fresh_def)
next
  case (Advance d)
  then show ?thesis using assms by (auto split: if_splits simp: timers_fresh_def)
qed

lemma consistent_step: "consistent w \<Longrightarrow> step a w = Some w' \<Longrightarrow> consistent w'"
  unfolding consistent_def timers_fresh_def [symmetric]
  using trace_ok_step distinct_waiting_step ws_bound_step timers_fresh_step by blast

lemma consistent_initial: "consistent initial_world"
  by (simp add: consistent_def initial_world_def trace_ok_def waiting_ids_def status_order_ok_def)

lemma reachable_consistent: "reachable w \<Longrightarrow> consistent w"
  by (induction rule: reachable.induct) (auto intro: consistent_initial consistent_step)

lemma consistent_run: "consistent w \<Longrightarrow> run as w = Some w' \<Longrightarrow> consistent w'"
  by (induction as arbitrary: w) (auto split: option.splits if_splits intro: consistent_step)

lemma reachable_run: "reachable w \<Longrightarrow> run as w = Some w' \<Longrightarrow> reachable w'"
  by (induction as arbitrary: w) (auto split: option.splits if_splits intro: reachable_step)



lemmas eval_defs = initial_world_def sendElement_cases valid_endpoint_def trim_def
  js_whitespace_def target_switch_def isConnected_def resume_cases
  IDLE_DURATION_def CONNECTION_TIMEOUT_def

lemmas view_defs = idle_view_def trace_of_def socket_states_def clock_def

section \<open>Properties of the connection lifecycle\<close>

text \<open>
  What a rejected call leaves as it was: a call of \<open>sendElement\<close> whose host is empty or
  whose port is not in \<open>[1, 65535]\<close> reports one \<open>ERROR\<close> at once and changes neither the
  current target nor the socket held nor any socket object nor the suspended calls.
\<close>

lemma invalid_send_unchanged:
  assumes "host' = [] \<or> port' < 1 \<or> 65535 < port'"
  shows "\<exists>w' err. step (SendElement host' port' send_ok) w = Some w'
     \<and> trace w' = trace w @ [Status (sends w) ERROR (Some err)]
     \<and> currentHost w' = currentHost w \<and> currentPort w' = currentPort w
     \<and> ws w' = ws w \<and> readyState w' = readyState w \<and> sockets w' = sockets w
     \<and> isConnected w' = isConnected w \<and> waiting w' = waiting w"
proof -
  have "\<not> valid_endpoint host' port'"
    using assms by (auto simp: valid_endpoint_def)
  then show ?thesis
    by (simp add: sendElement_cases isConnected_def split: option.split)
qed

text \<open>
  A host that consists of white space only is rejected as \<open>Invalid host\<close>, also when the
  white space is the no-break space U+00A0.
\<close>

lemma blank_host_rejected:
  "\<not> valid_endpoint [CHR 0xA0] 7007 \<and> \<not> valid_endpoint [CHR 0x20, CHR 0x09] 7007
   \<and> trace_of [SendElement [CHR 0xA0] 7007 True] = [Status 0 ERROR (Some Invalid_host)]"
  by (simp add: trace_of_def eval_defs)

text \<open>
  Claim C7 says that a call of \<open>sendElement\<close> with an empty host, or a port outside
  \<open>[1, 65535]\<close>, reports \<open>ERROR\<close> at once and changes no connection state. The code does
  not do that: \<open>sendElement\<close> runs \<open>clearIdleTimer\<close> before the validation in
  \<open>handleConnectionChange\<close>, and returns after the \<open>ERROR\<close> without \<open>startIdleTimer\<close>. Here,
  after a successful call the connection is open and the idle timer \<open>1\<close> is pending; a
  call with an empty host reports \<open>ERROR\<close> and leaves the connection open with no idle
  timer, so that it stays open however much time passes.
\<close>

theorem invalid_send_cancels_idle_timer:
  "idle_view [SendElement ''a'' 7007 True, SocketOpens 0 True] = Some (Some 0, True, Some 1, [1])
   \<and> statuses 1 (trace_of [SendElement ''a'' 7007 True, SocketOpens 0 True,
                            SendElement [] 7007 True]) = [ERROR]
   \<and> idle_view [SendElement ''a'' 7007 True, SocketOpens 0 True, SendElement [] 7007 True]
       = Some (Some 0, True, None, [])
   \<and> idle_view [SendElement ''a'' 7007 True, SocketOpens 0 True, SendElement [] 7007 True,
                 Advance 1000000]
       = Some (Some 0, True, None, [])"
  by (simp add: idle_view_def trace_of_def eval_defs)




lemma foldl_resume_untouched:
  "i \<notin> fst ` set xs \<Longrightarrow>
     statuses i (trace (foldl (resume ok c) w xs)) = statuses i (trace w)
   \<and> frames i (trace (foldl (resume ok c) w xs)) = frames i (trace w)"
proof (induction xs arbitrary: w)
  case Nil
  show ?case by simp
next
  case (Cons x xs)
  obtain new where new: "trace (resume ok c w x) = trace w @ new"
    "\<forall>j. j \<noteq> fst x \<longrightarrow> statuses j new = [] \<and> frames j new = []"
    using resume_trace [of ok c w x] by blast
  have "i \<noteq> fst x" "i \<notin> fst ` set xs" using Cons.prems by auto
  then show ?case using Cons.IH [of "resume ok c w x"] new by simp
qed

lemma step_untouched:
  assumes "step a w = Some w'" and "i \<noteq> sends w" and "i \<notin> waiting_ids w"
  shows "statuses i (trace w') = statuses i (trace w)
       \<and> frames i (trace w') = frames i (trace w) \<and> i \<notin> waiting_ids w'"
proof (cases a)
  case (SendElement h p ok)
  let ?w0 = "w\<lparr>sends := Suc (sends w)\<rparr>"
  obtain new where new: "trace w' = trace w @ new"
    "\<forall>j. j \<noteq> sends w \<longrightarrow> statuses j new = [] \<and> frames j new = []"
    "waiting w' = waiting w \<or> waiting w' = waiting w @ [(sends w, sockets w, h, p)]"
    using sendElement_trace [of "sends w" h p ok ?w0] assms(1) SendElement by auto
  show ?thesis using new assms(2,3) by (auto simp: waiting_ids_def)
next
  case (SocketOpens s ok)
  let ?xs = "filter (\<lambda>x. fst (snd x) = s) (waiting w)"
  have "i \<notin> fst ` set ?xs" using assms(3) by (auto simp: waiting_ids_def)
  then show ?thesis
    using assms(1,3) SocketOpens foldl_resume_untouched [of i ?xs ok True]
    by (auto split: if_splits simp: waiting_ids_def)
next
  case (ConnectionTimeout k)
  then obtain x where x: "find (\<lambda>x. fst x = k) (waiting w) = Some x"
    and w': "w' = resume True False (w\<lparr>waiting := filter (\<lambda>y. fst y \<noteq> k) (waiting w)\<rparr>) x"
    using assms(1) by (auto split: option.splits if_splits)
  have "i \<noteq> fst x" using find_fst_Some [OF x] assms(3) by (auto simp: waiting_ids_def)
  then show ?thesis
    using resume_trace [of True False "w\<lparr>waiting := filter (\<lambda>y. fst y \<noteq> k) (waiting w)\<rparr>" x]
      assms(3) by (auto simp: w' waiting_ids_def)
next
  case (IdleTimerFires t)
  then show ?thesis using assms(1,3)
    by (auto split: if_splits option.splits simp: waiting_ids_def)
next
  case (SocketDrops s)
  then show ?thesis using assms(1,3) by (auto split: if_splits simp: waiting_ids_def)
next
  case (Advance d)
  then show ?thesis using assms(1,3) by (auto split: if_splits simp: waiting_ids_def)
qed

lemma sends_mono: "step a w = Some w' \<Longrightarrow> sends w \<le> sends w'"
  by (cases a) (auto split: if_splits option.splits)

lemma finished_run:
  "run as w = Some w' \<Longrightarrow> i < sends w \<Longrightarrow> i \<notin> waiting_ids w \<Longrightarrow>
     statuses i (trace w') = statuses i (trace w)
   \<and> frames i (trace w') = frames i (trace w) \<and> i \<notin> waiting_ids w'"
proof (induction as arbitrary: w)
  case Nil
  then show ?case by simp
next
  case (Cons a as)
  then obtain w1 where w1: "step a w = Some w1" "run as w1 = Some w'"
    by (auto split: option.splits if_splits)
  have 1: "statuses i (trace w1) = statuses i (trace w)
       \<and> frames i (trace w1) = frames i (trace w) \<and> i \<notin> waiting_ids w1"
    using step_untouched [OF w1(1)] Cons.prems(2,3) by simp
  have 2: "i < sends w1" using sends_mono [OF w1(1)] Cons.prems(2) by simp
  show ?case using Cons.IH [OF w1(2) 2] 1 by simp
qed

lemma target_switch_disconnected:
  "ws w = None \<Longrightarrow> ws (target_switch h p w) = None \<and> trace (target_switch h p w) = trace w"
  by (simp add: target_switch_def)

lemma fresh_attempt:
  assumes "ws w = None" and "valid_endpoint h p"
  shows "\<exists>w'. step (SendElement h p ok) w = Some w'
     \<and> trace w' = trace w @ [Status (sends w) CONNECTING None, SocketNew (sockets w) h p]
     \<and> ws w' = Some (sockets w) \<and> readyState w' (sockets w) = WS_CONNECTING
     \<and> (sends w, sockets w, h, p) \<in> set (waiting w')"
proof -
  let ?w1 = "clearIdleTimer (w\<lparr>sends := Suc (sends w)\<rparr>)"
  have "ws ?w1 = None" using assms(1) by simp
  then have "ws (target_switch h p ?w1) = None" "trace (target_switch h p ?w1) = trace w"
    using target_switch_disconnected [of ?w1 h p] by simp_all
  then show ?thesis
    using assms(2) by (simp add: sendElement_cases isConnected_def)
qed

lemma timeout_due_stable:
  assumes "step a w = Some w'" and "i \<noteq> sends w"
  shows "timeout_due w' i = timeout_due w i"
proof (cases a)
  case (SendElement h p ok)
  then show ?thesis using assms by (auto simp: sendElement_cases)
next
  case (SocketOpens s ok)
  then show ?thesis using assms by (auto split: if_splits)
next
  case (ConnectionTimeout j)
  then show ?thesis using assms by (auto split: option.splits if_splits)
next
  case (IdleTimerFires t)
  then show ?thesis using assms by (auto split: if_splits)
next
  case (SocketDrops s)
  then show ?thesis using assms by (auto split: if_splits)
next
  case (Advance d)
  then show ?thesis using assms by auto
qed

lemma timeout_due_run:
  "run as w = Some w' \<Longrightarrow> i < sends w \<Longrightarrow> timeout_due w' i = timeout_due w i"
proof (induction as arbitrary: w)
  case Nil
  then show ?case by simp
next
  case (Cons a as)
  then obtain w1 where w1: "step a w = Some w1" "run as w1 = Some w'"
    by (auto split: option.splits)
  have "timeout_due w1 i = timeout_due w i"
    using timeout_due_stable [OF w1(1)] Cons.prems(2) by simp
  moreover have "i < sends w1" using sends_mono [OF w1(1)] Cons.prems(2) by simp
  ultimately show ?case using Cons.IH [OF w1(2)] by simp
qed

lemma suspend_sets_due:
  assumes "sends w0 \<notin> waiting_ids w0" and "step (SendElement h p ok) w0 = Some w1"
    and "sends w0 \<in> waiting_ids w1"
  shows "timeout_due w1 (sends w0) = now w0 + CONNECTION_TIMEOUT"
  using assms by (auto simp: sendElement_cases waiting_ids_def split: if_splits)

lemma timeout_not_early:
  assumes "reachable w0" and "step (SendElement h p ok) w0 = Some w1"
    and "run as w1 = Some w" and "step (ConnectionTimeout (sends w0)) w = Some w'"
  shows "now w0 + CONNECTION_TIMEOUT \<le> now w"
proof -
  let ?i = "sends w0"
  have fresh: "?i \<notin> waiting_ids w0"
    using reachable_consistent [OF assms(1)] by (auto simp: consistent_def trace_ok_def)
  have lt: "?i < sends w1" using assms(2) by auto
  obtain x where x: "find (\<lambda>x. fst x = ?i) (waiting w) = Some x" and due: "timeout_due w ?i \<le> now w"
    using assms(4) by (auto split: option.splits if_splits)
  have "?i \<in> waiting_ids w"
    using find_fst_Some [OF x] by (metis image_eqI waiting_ids_def)
  then have "?i \<in> waiting_ids w1" using finished_run [OF assms(3) lt] by blast
  then have "timeout_due w1 ?i = now w0 + CONNECTION_TIMEOUT"
    using suspend_sets_due [OF fresh assms(2)] by simp
  then show ?thesis using timeout_due_run [OF assms(3) lt] due by simp
qed

lemma resume_idle_due:
  "t < next_timer w \<Longrightarrow> idle_due (resume ok c w x) t = idle_due w t"
  by (cases x) (auto simp: resume_cases)

lemma resume_next_timer: "next_timer w \<le> next_timer (resume ok c w x)"
  by (cases x) (auto simp: resume_cases)

lemma foldl_resume_next_timer: "next_timer w \<le> next_timer (foldl (resume ok c) w xs)"
proof (induction xs arbitrary: w)
  case Nil
  show ?case by simp
next
  case (Cons x xs)
  show ?case using resume_next_timer [of w ok c x] Cons.IH [of "resume ok c w x"] by simp
qed

lemma foldl_resume_idle_due:
  "t < next_timer w \<Longrightarrow> idle_due (foldl (resume ok c) w xs) t = idle_due w t"
proof (induction xs arbitrary: w)
  case Nil
  show ?case by simp
next
  case (Cons x xs)
  have "t < next_timer (resume ok c w x)" using Cons.prems resume_next_timer [of w ok c x] by simp
  then show ?case using Cons.IH [of "resume ok c w x"] resume_idle_due [OF Cons.prems] by simp
qed

lemma idle_due_stable:
  assumes "step a w = Some w'" and "t < next_timer w"
  shows "idle_due w' t = idle_due w t"
proof (cases a)
  case (SendElement h p ok)
  then show ?thesis using assms by (auto simp: sendElement_cases)
next
  case (SocketOpens s ok)
  then show ?thesis using assms by (auto split: if_splits simp: foldl_resume_idle_due)
next
  case (ConnectionTimeout j)
  then show ?thesis using assms by (auto split: option.splits if_splits simp: resume_idle_due)
next
  case (IdleTimerFires t)
  then show ?thesis using assms by (auto split: if_splits)
next
  case (SocketDrops s)
  then show ?thesis using assms by (auto split: if_splits)
next
  case (Advance d)
  then show ?thesis using assms by auto
qed

lemma next_timer_mono: "step a w = Some w' \<Longrightarrow> next_timer w \<le> next_timer w'"
proof (cases a)
  case (SendElement h p ok)
  assume "step a w = Some w'"
  then show ?thesis using SendElement by (auto simp: sendElement_cases)
next
  case (SocketOpens s ok)
  assume "step a w = Some w'"
  then show ?thesis using SocketOpens
    foldl_resume_next_timer [of "w\<lparr>readyState := (readyState w)(s := WS_OPEN),
                waiting := filter (\<lambda>x. fst (snd x) \<noteq> s) (waiting w)\<rparr>" ok True]
    by (auto split: if_splits)
next
  case (ConnectionTimeout j)
  assume "step a w = Some w'"
  then show ?thesis using ConnectionTimeout
    resume_next_timer [of "w\<lparr>waiting := filter (\<lambda>y. fst y \<noteq> j) (waiting w)\<rparr>" True False]
    by (auto split: option.splits if_splits)
next
  case (IdleTimerFires t)
  assume "step a w = Some w'"
  then show ?thesis using IdleTimerFires by (auto split: if_splits)
next
  case (SocketDrops s)
  assume "step a w = Some w'"
  then show ?thesis using SocketDrops by (auto split: if_splits)
next
  case (Advance d)
  assume "step a w = Some w'"
  then show ?thesis using Advance by auto
qed

lemma idle_due_run:
  "run as w = Some w' \<Longrightarrow> t < next_timer w \<Longrightarrow> idle_due w' t = idle_due w t"
proof (induction as arbitrary: w)
  case Nil
  then show ?case by simp
next
  case (Cons a as)
  then obtain w1 where w1: "step a w = Some w1" "run as w1 = Some w'"
    by (auto split: option.splits)
  have "idle_due w1 t = idle_due w t" using idle_due_stable [OF w1(1) Cons.prems(2)] .
  moreover have "t < next_timer w1" using next_timer_mono [OF w1(1)] Cons.prems(2) by simp
  ultimately show ?case using Cons.IH [OF w1(2)] by simp
qed


lemma resume_now [simp]: "now (resume ok c w x) = now w"
  by (cases x) (simp add: resume_cases)

lemma foldl_resume_new_due:
  "next_timer w \<le> t \<Longrightarrow> t < next_timer (foldl (resume ok c) w xs) \<Longrightarrow>
     idle_due (foldl (resume ok c) w xs) t = now w + IDLE_DURATION"
proof (induction xs arbitrary: w)
  case Nil
  then show ?case by simp
next
  case (Cons x xs)
  let ?w1 = "resume ok c w x"
  show ?case
  proof (cases "t < next_timer ?w1")
    case True
    have "idle_due ?w1 t = now w + IDLE_DURATION"
      using True Cons.prems(1) by (cases x) (auto simp: resume_cases split: if_splits)
    then show ?thesis using foldl_resume_idle_due [OF True, of ok c xs] by simp
  next
    case False
    then have "next_timer ?w1 \<le> t" by simp
    then show ?thesis using Cons.IH [of ?w1] Cons.prems(2) by simp
  qed
qed

lemma new_timer_due:
  assumes "step a w = Some w'" and "next_timer w \<le> t" and "t < next_timer w'"
  shows "idle_due w' t = now w + IDLE_DURATION"
proof (cases a)
  case (SendElement h p ok)
  then show ?thesis using assms by (auto simp: sendElement_cases split: if_splits)
next
  case (SocketOpens s ok)
  let ?w1 = "w\<lparr>readyState := (readyState w)(s := WS_OPEN),
                waiting := filter (\<lambda>x. fst (snd x) \<noteq> s) (waiting w)\<rparr>"
  let ?xs = "filter (\<lambda>x. fst (snd x) = s) (waiting w)"
  have w': "w' = foldl (resume ok True) ?w1 ?xs"
    using assms(1) SocketOpens by (simp split: if_splits)
  show ?thesis
    using foldl_resume_new_due [of ?w1 t ok True ?xs] assms(2,3) by (simp add: w')
next
  case (ConnectionTimeout j)
  then obtain x where w': "w' = resume True False (w\<lparr>waiting := filter (\<lambda>y. fst y \<noteq> j) (waiting w)\<rparr>) x"
    using assms(1) by (auto split: option.splits if_splits)
  have "next_timer w' = next_timer w" by (cases x) (simp add: w' resume_cases)
  then show ?thesis using assms(2,3) by simp
next
  case (IdleTimerFires u)
  then show ?thesis using assms by (auto split: if_splits)
next
  case (SocketDrops s)
  then show ?thesis using assms by (auto split: if_splits)
next
  case (Advance d)
  then show ?thesis using assms by auto
qed

lemma resume_timers_new:
  "t \<in> set (timers (resume ok c w x)) \<Longrightarrow> t \<notin> set (timers w) \<Longrightarrow>
     next_timer w \<le> t \<and> t < next_timer (resume ok c w x)"
  by (cases x) (auto simp: resume_cases split: if_splits option.splits)

lemma foldl_resume_timers_new:
  "t \<in> set (timers (foldl (resume ok c) w xs)) \<Longrightarrow> t \<notin> set (timers w) \<Longrightarrow>
     next_timer w \<le> t \<and> t < next_timer (foldl (resume ok c) w xs)"
proof (induction xs arbitrary: w)
  case Nil
  then show ?case by simp
next
  case (Cons x xs)
  let ?w1 = "resume ok c w x"
  show ?case
  proof (cases "t \<in> set (timers ?w1)")
    case True
    then have "next_timer w \<le> t \<and> t < next_timer ?w1"
      using resume_timers_new Cons.prems(2) by blast
    then show ?thesis using foldl_resume_next_timer [of ?w1 ok c xs] by simp
  next
    case False
    then have "next_timer ?w1 \<le> t \<and> t < next_timer (foldl (resume ok c) ?w1 xs)"
      using Cons.IH [of ?w1] Cons.prems(1) by simp
    then show ?thesis using resume_next_timer [of w ok c x] by simp
  qed
qed

lemma timers_new:
  assumes "step a w = Some w'" and "t \<in> set (timers w')" and "t \<notin> set (timers w)"
  shows "next_timer w \<le> t \<and> t < next_timer w'"
proof (cases a)
  case (SendElement h p ok)
  let ?w0 = "clearIdleTimer (w\<lparr>sends := Suc (sends w)\<rparr>)"
  have "set (timers (target_switch h p ?w0)) \<subseteq> set (timers w)"
    using target_switch_timers [of h p ?w0] by (auto split: option.splits)
  moreover have "set (timers ?w0) \<subseteq> set (timers w)" by (auto split: option.splits)
  ultimately show ?thesis using assms SendElement
    by (auto simp: sendElement_cases split: if_splits)
next
  case (SocketOpens s ok)
  let ?w1 = "w\<lparr>readyState := (readyState w)(s := WS_OPEN),
                waiting := filter (\<lambda>x. fst (snd x) \<noteq> s) (waiting w)\<rparr>"
  let ?xs = "filter (\<lambda>x. fst (snd x) = s) (waiting w)"
  have w': "w' = foldl (resume ok True) ?w1 ?xs"
    using assms(1) SocketOpens by (simp split: if_splits)
  show ?thesis
    using foldl_resume_timers_new [of t ok True ?w1 ?xs] assms(2,3) by (simp add: w')
next
  case (ConnectionTimeout j)
  then obtain x where w': "w' = resume True False (w\<lparr>waiting := filter (\<lambda>y. fst y \<noteq> j) (waiting w)\<rparr>) x"
    using assms(1) by (auto split: option.splits if_splits)
  show ?thesis
    using resume_timers_new [of t True False "w\<lparr>waiting := filter (\<lambda>y. fst y \<noteq> j) (waiting w)\<rparr>" x]
      assms(2,3) by (simp add: w')
next
  case (IdleTimerFires u)
  then show ?thesis using assms by (auto split: if_splits option.splits)
next
  case (SocketDrops s)
  then show ?thesis using assms by (auto split: if_splits)
next
  case (Advance d)
  then show ?thesis using assms by auto
qed

lemma idle_timer_not_early:
  assumes "step a w = Some w'" and "t \<in> set (timers w')" and "t \<notin> set (timers w)"
    and "run bs w' = Some v" and "step (IdleTimerFires t) v = Some v'"
  shows "idle_due w' t = now w + IDLE_DURATION \<and> now w + IDLE_DURATION \<le> now v"
proof -
  have n: "next_timer w \<le> t" "t < next_timer w'" using timers_new [OF assms(1,2,3)] by simp_all
  have d: "idle_due w' t = now w + IDLE_DURATION" using new_timer_due [OF assms(1) n] .
  have "idle_due v t = idle_due w' t" using idle_due_run [OF assms(4) n(2)] .
  moreover have "idle_due v t \<le> now v" using assms(5) by (auto split: if_splits)
  ultimately show ?thesis using d by simp
qed

lemma connection_timeout_effect:
  assumes "reachable w" and "step (ConnectionTimeout i) w = Some w'"
  shows "statuses i (trace w') = [CONNECTING, ERROR]
     \<and> ws w' = None \<and> idleTimeout w' = None \<and> \<not> isConnected w'
     \<and> (\<forall>s. ws w = Some s \<longrightarrow> readyState w' s = WS_CLOSED)
     \<and> (\<forall>as w''. run as w' = Some w'' \<longrightarrow>
           statuses i (trace w'') = [CONNECTING, ERROR] \<and> frames i (trace w'') = []
         \<and> i \<notin> fst ` set (waiting w''))
     \<and> (\<forall>h p ok. h \<noteq> [] \<and> trim h \<noteq> [] \<and> 0 < p \<and> p \<le> 65535 \<longrightarrow>
           (\<exists>w''. step (SendElement h p ok) w' = Some w''
              \<and> trace w'' = trace w' @ [Status (sends w') CONNECTING None, SocketNew (sockets w') h p]
              \<and> ws w'' = Some (sockets w') \<and> readyState w'' (sockets w') = WS_CONNECTING
              \<and> (sends w', sockets w', h, p) \<in> set (waiting w'')))"
proof -
  let ?w1 = "w\<lparr>waiting := filter (\<lambda>y. fst y \<noteq> i) (waiting w)\<rparr>"
  obtain x where x: "find (\<lambda>x. fst x = i) (waiting w) = Some x" and w': "w' = resume True False ?w1 x"
    using assms(2) by (auto split: option.splits if_splits)
  have fx: "fst x = i" "x \<in> set (waiting w)" using find_fst_Some [OF x] by auto
  obtain s h p where xe: "x = (i, s, h, p)" using fx(1) by (cases x) auto
  have inv: "trace_ok (waiting_ids w) (sends w) (trace w)"
    using reachable_consistent [OF assms(1)] by (simp add: consistent_def)
  have "i \<in> waiting_ids w" using fx by (auto simp: waiting_ids_def)
  then have cur: "statuses i (trace w) = [CONNECTING]" "frames i (trace w) = []"
    using inv by (auto simp: trace_ok_def)
  have lt: "i < sends w"
  proof (rule ccontr)
    assume "\<not> i < sends w"
    then have "sends w \<le> i" by simp
    then have "statuses i (trace w) = []" using inv by (simp add: trace_ok_def)
    then show False using cur(1) by simp
  qed
  have w'e: "w' = disconnect (emit i ERROR (Some (Connection_timeout_to h p)) ?w1)"
    by (simp add: w' xe resume_cases)
  have st: "statuses i (trace w') = [CONNECTING, ERROR]" "frames i (trace w') = []"
    using cur by (simp_all add: w'e split: option.split)
  have dis: "ws w' = None" "idleTimeout w' = None" by (simp_all add: w'e)
  have fin: "i < sends w'" "i \<notin> waiting_ids w'"
    using lt by (auto simp: w'e waiting_ids_def)
  have closed: "\<forall>s. ws w = Some s \<longrightarrow> readyState w' s = WS_CLOSED" by (simp add: w'e)
  have later: "\<forall>as w''. run as w' = Some w'' \<longrightarrow>
           statuses i (trace w'') = [CONNECTING, ERROR] \<and> frames i (trace w'') = []
         \<and> i \<notin> fst ` set (waiting w'')"
    using finished_run [OF _ fin] st by (auto simp: waiting_ids_def)
  have again: "\<forall>h p ok. h \<noteq> [] \<and> trim h \<noteq> [] \<and> 0 < p \<and> p \<le> 65535 \<longrightarrow>
           (\<exists>w''. step (SendElement h p ok) w' = Some w''
              \<and> trace w'' = trace w' @ [Status (sends w') CONNECTING None, SocketNew (sockets w') h p]
              \<and> ws w'' = Some (sockets w') \<and> readyState w'' (sockets w') = WS_CONNECTING
              \<and> (sends w', sockets w', h, p) \<in> set (waiting w''))"
    using fresh_attempt [OF dis(1)] by (simp add: valid_endpoint_def)
  show ?thesis
    using st(1) dis closed later again by (simp add: isConnected_def)
qed


text \<open>
  What the connection timeout of a call does, in every reachable state. It fires no
  earlier than 10000 ms after the call. The call, which had reported \<open>CONNECTING\<close>, reports
  one \<open>ERROR\<close>, and in every later state its statuses are still \<open>CONNECTING\<close>, \<open>ERROR\<close>, no
  frame of it was handed to any socket and it is not suspended again. \<open>disconnect\<close> closes
  the socket that \<open>ws\<close> holds at that moment and clears \<open>ws\<close> and the idle timer handle. A
  following call with a valid target reports \<open>CONNECTING\<close>, creates a new socket and waits
  for it. The socket closed is the one held, which need not be the socket the call waited
  on.
\<close>

lemma connection_timeout_of_call:
  assumes "reachable w0" and "step (SendElement h p ok) w0 = Some w1"
    and "run as w1 = Some w" and "step (ConnectionTimeout (sends w0)) w = Some w'"
  shows "now w0 + 10000 \<le> now w
     \<and> statuses (sends w0) (trace w') = [CONNECTING, ERROR]
     \<and> ws w' = None \<and> idleTimeout w' = None \<and> \<not> isConnected w'
     \<and> (\<forall>s. ws w = Some s \<longrightarrow> readyState w' s = WS_CLOSED)
     \<and> (\<forall>bs w''. run bs w' = Some w'' \<longrightarrow>
           statuses (sends w0) (trace w'') = [CONNECTING, ERROR]
         \<and> frames (sends w0) (trace w'') = []
         \<and> sends w0 \<notin> fst ` set (waiting w''))
     \<and> (\<forall>h2 p2 ok2. h2 \<noteq> [] \<and> trim h2 \<noteq> [] \<and> 0 < p2 \<and> p2 \<le> 65535 \<longrightarrow>
           (\<exists>w''. step (SendElement h2 p2 ok2) w' = Some w''
              \<and> trace w'' = trace w'
                   @ [Status (sends w') CONNECTING None, SocketNew (sockets w') h2 p2]
              \<and> ws w'' = Some (sockets w') \<and> readyState w'' (sockets w') = WS_CONNECTING
              \<and> (sends w', sockets w', h2, p2) \<in> set (waiting w'')))"
proof -
  have r: "reachable w"
    using reachable_run [OF reachable_step [OF assms(1,2)] assms(3)] .
  have "now w0 + 10000 \<le> now w"
    using timeout_not_early [OF assms] by (simp add: CONNECTION_TIMEOUT_def)
  then show ?thesis
    using connection_timeout_effect [OF r assms(4)] by simp
qed

text \<open>
  Claim C4 says that a call of \<open>sendElement\<close> whose connection attempt does not reach \<open>OPEN\<close>
  within 10000 ms reports exactly one \<open>ERROR\<close>, and that the connection is torn down,
  leaving the manager disconnected. The code does not do that when calls overlap: after
  the timeout \<open>ensureConnection\<close> calls \<open>disconnect\<close>, which closes the socket that \<open>this.ws\<close>
  holds at that moment, not the socket of the attempt that timed out; and
  \<open>ensureConnection\<close> had assigned the socket of the later call to \<open>this.ws\<close> without closing
  the one it held. Here two calls to the same target are made while no socket has opened,
  and after 10000 ms the timeout of the first call fires. The first call reports \<open>ERROR\<close>,
  but the socket closed is socket \<open>1\<close>, that of the second call; socket \<open>0\<close>, the connection
  attempt of the first call, is still connecting. The second call, whose socket was
  closed under it, ends with \<open>ERROR\<close> at its own timeout. Socket \<open>0\<close> opens later and then
  stays open however much time passes: \<open>ws\<close> is \<open>null\<close>, so that the manager counts as
  disconnected, no idle timer is pending, and no socket but \<open>1\<close> is ever closed.
\<close>

theorem connection_timeout_closes_other_socket:
  "trace_of [SendElement ''a'' 7007 True, SendElement ''a'' 7007 True, Advance 10000,
             ConnectionTimeout 0]
     = [Status 0 CONNECTING None, SocketNew 0 ''a'' 7007,
        Status 1 CONNECTING None, SocketNew 1 ''a'' 7007,
        Status 0 ERROR (Some (Connection_timeout_to ''a'' 7007)), SocketClose 1]
   \<and> socket_states [SendElement ''a'' 7007 True, SendElement ''a'' 7007 True, Advance 10000,
             ConnectionTimeout 0]
     = Some [WS_CONNECTING, WS_CLOSED]
   \<and> idle_view [SendElement ''a'' 7007 True, SendElement ''a'' 7007 True, Advance 10000,
             ConnectionTimeout 0]
     = Some (None, False, None, [])
   \<and> socket_states [SendElement ''a'' 7007 True, SendElement ''a'' 7007 True, Advance 10000,
             ConnectionTimeout 0, ConnectionTimeout 1, Advance 5000, SocketOpens 0 True,
             Advance 1000000]
     = Some [WS_OPEN, WS_CLOSED]
   \<and> statuses 1 (trace_of [SendElement ''a'' 7007 True, SendElement ''a'' 7007 True,
             Advance 10000, ConnectionTimeout 0, ConnectionTimeout 1, Advance 5000,
             SocketOpens 0 True, Advance 1000000])
     = [CONNECTING, ERROR]
   \<and> closes (trace_of [SendElement ''a'' 7007 True, SendElement ''a'' 7007 True, Advance 10000,
             ConnectionTimeout 0, ConnectionTimeout 1, Advance 5000, SocketOpens 0 True,
             Advance 1000000])
     = [1]
   \<and> idle_view [SendElement ''a'' 7007 True, SendElement ''a'' 7007 True, Advance 10000,
             ConnectionTimeout 0, ConnectionTimeout 1, Advance 5000, SocketOpens 0 True,
             Advance 1000000]
     = Some (None, False, None, [])"
  by (simp add: view_defs eval_defs)

lemma valid_send_sets_target:
  "step (SendElement h p ok) w = Some w' \<Longrightarrow> valid_endpoint h p \<Longrightarrow>
     currentHost w' = Some h \<and> currentPort w' = Some p"
  by (auto simp: sendElement_cases)

lemma quiet_step_keeps_target:
  "step a w = Some w' \<Longrightarrow> \<not> is_send a \<Longrightarrow>
     currentHost w' = currentHost w \<and> currentPort w' = currentPort w"
  by (cases a) (auto split: if_splits option.splits)

lemma quiet_run_keeps_target:
  "run as w = Some w' \<Longrightarrow> \<forall>a \<in> set as. \<not> is_send a \<Longrightarrow>
     currentHost w' = currentHost w \<and> currentPort w' = currentPort w"
proof (induction as arbitrary: w)
  case Nil
  then show ?case by simp
next
  case (Cons a as)
  then obtain w1 where w1: "step a w = Some w1" "run as w1 = Some w'"
    by (auto split: option.splits if_splits)
  show ?case
    using quiet_step_keeps_target [OF w1(1)] Cons.IH [OF w1(2)] Cons.prems(2) by simp
qed

lemma sockets_from_resume: "sockets_from k i w \<Longrightarrow> sockets_from k i (resume ok c w x)"
  by (cases x) (auto simp: sockets_from_def resume_cases split: option.splits if_splits)

lemma sockets_from_foldl_resume:
  "sockets_from k i w \<Longrightarrow> sockets_from k i (foldl (resume ok c) w xs)"
  by (induction xs arbitrary: w) (simp_all add: sockets_from_resume)

lemma sockets_from_sendElement:
  assumes "sockets_from k i w"
  shows "sockets_from k i (sendElement j h p ok w)"
proof -
  let ?w1 = "target_switch h p (clearIdleTimer w)"
  obtain cl where cl: "trace ?w1 = trace w @ cl" "\<forall>j. statuses j cl = [] \<and> frames j cl = []"
    using target_switch_trace [of h p "clearIdleTimer w"] by auto
  have "sockets_from k i ?w1"
    using assms cl target_switch_ws [of h p "clearIdleTimer w"]
    by (auto simp: sockets_from_def)
  then show ?thesis
    using assms by (auto simp: sendElement_cases sockets_from_def split: option.splits if_splits)
qed

lemma sockets_from_step:
  assumes "sockets_from k i w" and "step a w = Some w'"
  shows "sockets_from k i w'"
proof (cases a)
  case (SendElement h p ok)
  have "sockets_from k i (w\<lparr>sends := Suc (sends w)\<rparr>)"
    using assms(1) by (simp add: sockets_from_def)
  then show ?thesis using assms(2) SendElement by (auto intro: sockets_from_sendElement)
next
  case (SocketOpens s ok)
  have "sockets_from k i (w\<lparr>readyState := (readyState w)(s := WS_OPEN),
                waiting := filter (\<lambda>x. fst (snd x) \<noteq> s) (waiting w)\<rparr>)"
    using assms(1) by (simp add: sockets_from_def)
  then show ?thesis using assms(2) SocketOpens
    by (auto split: if_splits intro: sockets_from_foldl_resume)
next
  case (ConnectionTimeout j)
  have "sockets_from k i (w\<lparr>waiting := filter (\<lambda>y. fst y \<noteq> j) (waiting w)\<rparr>)"
    using assms(1) by (simp add: sockets_from_def)
  then show ?thesis using assms(2) ConnectionTimeout
    by (auto split: option.splits if_splits intro: sockets_from_resume)
next
  case (IdleTimerFires t)
  then show ?thesis using assms
    by (auto split: if_splits option.splits simp: sockets_from_def)
next
  case (SocketDrops s)
  then show ?thesis using assms by (auto split: if_splits simp: sockets_from_def)
next
  case (Advance d)
  then show ?thesis using assms by (auto split: if_splits simp: sockets_from_def)
qed

lemma sockets_from_run:
  "sockets_from k i w \<Longrightarrow> run as w = Some w' \<Longrightarrow> sockets_from k i w'"
  by (induction as arbitrary: w) (auto split: option.splits if_splits intro: sockets_from_step)

lemma resume_trace_grows: "set (trace w) \<subseteq> set (trace (resume ok c w x))"
  using resume_trace [of ok c w x] by auto

lemma foldl_resume_trace_grows: "set (trace w) \<subseteq> set (trace (foldl (resume ok c) w xs))"
proof (induction xs arbitrary: w)
  case Nil
  show ?case by simp
next
  case (Cons x xs)
  show ?case using resume_trace_grows [of w ok c x] Cons.IH [of "resume ok c w x"] by auto
qed

lemma socket_for_target_sendElement:
  assumes "socket_for_target w"
  shows "socket_for_target (sendElement i h p ok w)"
proof (cases "valid_endpoint h p")
  case False
  then show ?thesis using assms by (auto simp: sendElement_cases socket_for_target_def)
next
  case True
  let ?w1 = "target_switch h p (clearIdleTimer w)"
  have 1: "socket_for_target ?w1"
    using assms by (auto simp: socket_for_target_def target_switch_def)
  show ?thesis
  proof (cases "isConnected ?w1")
    case c: True
    then show ?thesis using True 1
      by (auto simp: sendElement_cases socket_for_target_def split: option.splits if_splits)
  next
    case c: False
    then show ?thesis using True
      by (simp add: sendElement_cases socket_for_target_def)
  qed
qed

lemma socket_for_target_step:
  assumes "socket_for_target w" and "step a w = Some w'"
  shows "socket_for_target w'"
proof (cases a)
  case (SendElement h p ok)
  have "socket_for_target (w\<lparr>sends := Suc (sends w)\<rparr>)"
    using assms(1) by (simp add: socket_for_target_def)
  then show ?thesis using assms(2) SendElement by (auto intro: socket_for_target_sendElement)
next
  case (SocketOpens s ok)
  let ?w1 = "w\<lparr>readyState := (readyState w)(s := WS_OPEN),
                waiting := filter (\<lambda>x. fst (snd x) \<noteq> s) (waiting w)\<rparr>"
  let ?xs = "filter (\<lambda>x. fst (snd x) = s) (waiting w)"
  have w': "w' = foldl (resume ok True) ?w1 ?xs"
    using assms(2) SocketOpens by (simp split: if_splits)
  have "set (trace w) \<subseteq> set (trace w')"
    unfolding w' using foldl_resume_trace_grows [of ?w1 ok True ?xs] by simp
  then show ?thesis using assms(1) by (fastforce simp: w' socket_for_target_def)
next
  case (ConnectionTimeout j)
  then show ?thesis using assms(2)
    by (cases "the (find (\<lambda>x. fst x = j) (waiting w))")
       (auto split: option.splits if_splits simp: socket_for_target_def resume_cases)
next
  case (IdleTimerFires t)
  then show ?thesis using assms(2) by (auto split: if_splits simp: socket_for_target_def)
next
  case (SocketDrops s)
  then show ?thesis using assms by (auto split: if_splits simp: socket_for_target_def)
next
  case (Advance d)
  then show ?thesis using assms by (auto split: if_splits simp: socket_for_target_def)
qed

lemma reachable_socket_for_target: "reachable w \<Longrightarrow> socket_for_target w"
proof (induction rule: reachable.induct)
  case reachable_initial
  show ?case by (simp add: socket_for_target_def initial_world_def)
next
  case (reachable_step w a w')
  then show ?case using socket_for_target_step by blast
qed

text \<open>
  What a call to a new target does to the socket the manager holds. Take two consecutive
  calls of \<open>sendElement\<close> (other tasks, but no call, may run between them), the first to a
  valid target \<open>A\<close>, the second to a different valid target \<open>B\<close>. When the second call
  starts, the socket held in \<open>ws\<close>, if any, is one that was created for \<open>A\<close>; the call closes
  it and clears the idle timer whose handle is held before it reports \<open>CONNECTING\<close> and
  creates the socket for \<open>B\<close>; and in every later state no frame of the second call was
  handed to a socket that existed before the call. Sockets and idle timers that the
  manager no longer holds are not reached.
\<close>

lemma held_socket_closed_at_switch:
  assumes "reachable w0"
    and "valid_endpoint hA pA" and "valid_endpoint hB pB" and "hA \<noteq> hB \<or> pA \<noteq> pB"
    and "step (SendElement hA pA okA) w0 = Some w1"
    and "run between w1 = Some w" and "\<forall>a \<in> set between. \<not> is_send a"
    and "step (SendElement hB pB okB) w = Some w'"
  shows "(\<forall>s. ws w = Some s \<longrightarrow> s < sockets w \<and> SocketNew s hA pA \<in> set (trace w))
     \<and> trace w' = trace w @ (case ws w of None \<Rightarrow> [] | Some s \<Rightarrow> [SocketClose s])
                     @ [Status (sends w) CONNECTING None, SocketNew (sockets w) hB pB]
     \<and> (\<forall>s. ws w = Some s \<longrightarrow> readyState w' s = WS_CLOSED)
     \<and> idleTimeout w' = None \<and> (\<forall>t. idleTimeout w = Some t \<longrightarrow> t \<notin> set (timers w'))
     \<and> ws w' = Some (sockets w)
     \<and> (\<forall>as w'' s. run as w' = Some w'' \<and> s < sockets w \<longrightarrow>
           s \<notin> set (frames (sends w) (trace w'')))"
proof -
  have r1: "reachable w1" using assms(1,5) by (rule reachable_step)
  have r: "reachable w" using r1 assms(6) by (rule reachable_run)
  have tgt: "currentHost w = Some hA" "currentPort w = Some pA"
    using valid_send_sets_target [OF assms(5,2)] quiet_run_keeps_target [OF assms(6,7)] by simp_all
  have cons: "consistent w" using r by (rule reachable_consistent)
  have bound: "\<forall>s. ws w = Some s \<longrightarrow> s < sockets w" using cons by (simp add: consistent_def)
  have forA: "\<forall>s. ws w = Some s \<longrightarrow> SocketNew s hA pA \<in> set (trace w)"
    using reachable_socket_for_target [OF r] tgt by (auto simp: socket_for_target_def)
  have fresh: "frames (sends w) (trace w) = []"
    using cons by (simp add: consistent_def trace_ok_def)
  let ?w1 = "clearIdleTimer (w\<lparr>sends := Suc (sends w)\<rparr>)"
  have sw: "target_switch hB pB ?w1 = (disconnect ?w1)\<lparr>currentHost := Some hB, currentPort := Some pB\<rparr>"
    using tgt assms(4) by (auto simp: target_switch_def)
  have w': "w' = open_socket (sends w) hB pB
                   ((disconnect ?w1)\<lparr>currentHost := Some hB, currentPort := Some pB\<rparr>)"
    using assms(8,3) by (simp add: sendElement_cases sw isConnected_def)
  have tr: "trace w' = trace w @ (case ws w of None \<Rightarrow> [] | Some s \<Rightarrow> [SocketClose s])
                     @ [Status (sends w) CONNECTING None, SocketNew (sockets w) hB pB]"
    by (simp add: w')
  have closed: "\<forall>s. ws w = Some s \<longrightarrow> readyState w' s = WS_CLOSED"
    using bound by (auto simp: w')
  have idle: "idleTimeout w' = None" "\<forall>t. idleTimeout w = Some t \<longrightarrow> t \<notin> set (timers w')"
    by (auto simp: w')
  have cur: "ws w' = Some (sockets w)" by (simp add: w')
  have "frames (sends w) (trace w') = []"
    using fresh by (simp add: tr split: option.split)
  then have "sockets_from (sockets w) (sends w) w'"
    using cur by (simp add: sockets_from_def w')
  then have "\<forall>as w''. run as w' = Some w'' \<longrightarrow> sockets_from (sockets w) (sends w) w''"
    using sockets_from_run by blast
  then have later: "\<forall>as w'' s. run as w' = Some w'' \<and> s < sockets w \<longrightarrow>
           s \<notin> set (frames (sends w) (trace w''))"
    by (fastforce simp: sockets_from_def)
  show ?thesis using bound forA tr closed idle cur later by blast
qed

text \<open>
  Claim C3 says that of two consecutive calls of \<open>sendElement\<close>, the first to a target \<open>A\<close>
  and the second to a different target \<open>B\<close>, the second tears down the connection to \<open>A\<close>
  (socket closed, idle timer cancelled) before the connection attempt to \<open>B\<close> begins. The
  code does not do that when calls overlap: \<open>ensureConnection\<close> assigns a new socket to
  \<open>this.ws\<close> without closing the one it held, whenever that one is not open, and
  \<open>startIdleTimer\<close> assigns a new handle to \<open>this.idleTimeout\<close> without clearing the one it
  held, while \<open>disconnect\<close> and \<open>clearIdleTimer\<close> reach only the socket and the timer held.
  Here two calls to \<open>A\<close> are made while the socket of the first is still connecting, both
  sockets open, and 9000 ms later a call to \<open>B\<close> follows the second call to \<open>A\<close>. The call
  to \<open>B\<close> closes socket \<open>1\<close> only: when it has reported \<open>CONNECTING\<close> and created the socket
  for \<open>B\<close>, socket \<open>0\<close>, created for \<open>A\<close>, is open, and the idle timer \<open>1\<close>, started by the first
  call to \<open>A\<close>, is pending. Then the socket of \<open>B\<close> opens and the call to \<open>B\<close> reports \<open>SENT\<close>,
  at 9000 ms; at 10000 ms the idle timer \<open>1\<close> fires and closes the socket of \<open>B\<close>. Socket
  \<open>0\<close> is open to the end.
\<close>

theorem target_switch_leaves_socket_open:
  "trace_of [SendElement ''a'' 7007 True, SendElement ''a'' 7007 True, SocketOpens 0 True,
             SocketOpens 1 True, Advance 9000, SendElement ''b'' 7008 True]
     = [Status 0 CONNECTING None, SocketNew 0 ''a'' 7007,
        Status 1 CONNECTING None, SocketNew 1 ''a'' 7007,
        Status 0 CONNECTED None, Status 0 SENDING None, SocketSend 1 0, Status 0 SENT None,
        Status 1 CONNECTED None, Status 1 SENDING None, SocketSend 1 1, Status 1 SENT None,
        SocketClose 1, Status 2 CONNECTING None, SocketNew 2 ''b'' 7008]
   \<and> socket_states [SendElement ''a'' 7007 True, SendElement ''a'' 7007 True, SocketOpens 0 True,
             SocketOpens 1 True, Advance 9000, SendElement ''b'' 7008 True]
     = Some [WS_OPEN, WS_CLOSED, WS_CONNECTING]
   \<and> idle_view [SendElement ''a'' 7007 True, SendElement ''a'' 7007 True, SocketOpens 0 True,
             SocketOpens 1 True, Advance 9000, SendElement ''b'' 7008 True]
     = Some (Some 2, False, None, [1])
   \<and> statuses 2 (trace_of [SendElement ''a'' 7007 True, SendElement ''a'' 7007 True,
             SocketOpens 0 True, SocketOpens 1 True, Advance 9000, SendElement ''b'' 7008 True,
             SocketOpens 2 True])
     = [CONNECTING, CONNECTED, SENDING, SENT]
   \<and> clock [SendElement ''a'' 7007 True, SendElement ''a'' 7007 True,
             SocketOpens 0 True, SocketOpens 1 True, Advance 9000, SendElement ''b'' 7008 True,
             SocketOpens 2 True] = Some 9000
   \<and> idle_view [SendElement ''a'' 7007 True, SendElement ''a'' 7007 True,
             SocketOpens 0 True, SocketOpens 1 True, Advance 9000, SendElement ''b'' 7008 True,
             SocketOpens 2 True]
     = Some (Some 2, True, Some 3, [1, 3])
   \<and> closes (trace_of [SendElement ''a'' 7007 True, SendElement ''a'' 7007 True,
             SocketOpens 0 True, SocketOpens 1 True, Advance 9000, SendElement ''b'' 7008 True,
             SocketOpens 2 True, Advance 1000, IdleTimerFires 1])
     = [1, 2]
   \<and> clock [SendElement ''a'' 7007 True, SendElement ''a'' 7007 True,
             SocketOpens 0 True, SocketOpens 1 True, Advance 9000, SendElement ''b'' 7008 True,
             SocketOpens 2 True, Advance 1000, IdleTimerFires 1] = Some 10000
   \<and> socket_states [SendElement ''a'' 7007 True, SendElement ''a'' 7007 True,
             SocketOpens 0 True, SocketOpens 1 True, Advance 9000, SendElement ''b'' 7008 True,
             SocketOpens 2 True, Advance 1000, IdleTimerFires 1]
     = Some [WS_OPEN, WS_CLOSED, WS_CLOSED]"
  by (simp add: view_defs eval_defs)

lemma timer_gone_resume: "timer_gone t w \<Longrightarrow> timer_gone t (resume ok c w x)"
  by (cases x) (auto simp: timer_gone_def resume_cases split: option.splits if_splits)

lemma timer_gone_foldl_resume: "timer_gone t w \<Longrightarrow> timer_gone t (foldl (resume ok c) w xs)"
  by (induction xs arbitrary: w) (simp_all add: timer_gone_resume)

lemma timer_gone_sendElement:
  assumes "timer_gone t w"
  shows "timer_gone t (sendElement i h p ok w)"
proof -
  have 1: "timer_gone t (clearIdleTimer w)"
    using assms by (auto simp: timer_gone_def split: option.splits if_splits)
  then have "timer_gone t (target_switch h p (clearIdleTimer w))"
    using target_switch_timers [of h p "clearIdleTimer w"] by (auto simp: timer_gone_def)
  then show ?thesis using 1 by (auto simp: sendElement_cases timer_gone_def)
qed

lemma timer_gone_step:
  assumes "timer_gone t w" and "step a w = Some w'"
  shows "timer_gone t w'"
proof (cases a)
  case (SendElement h p ok)
  have "timer_gone t (w\<lparr>sends := Suc (sends w)\<rparr>)" using assms(1) by (simp add: timer_gone_def)
  then show ?thesis using assms(2) SendElement by (auto intro: timer_gone_sendElement)
next
  case (SocketOpens s ok)
  have "timer_gone t (w\<lparr>readyState := (readyState w)(s := WS_OPEN),
                waiting := filter (\<lambda>x. fst (snd x) \<noteq> s) (waiting w)\<rparr>)"
    using assms(1) by (simp add: timer_gone_def)
  then show ?thesis using assms(2) SocketOpens
    by (auto split: if_splits intro: timer_gone_foldl_resume)
next
  case (ConnectionTimeout j)
  have "timer_gone t (w\<lparr>waiting := filter (\<lambda>y. fst y \<noteq> j) (waiting w)\<rparr>)"
    using assms(1) by (simp add: timer_gone_def)
  then show ?thesis using assms(2) ConnectionTimeout
    by (auto split: option.splits if_splits intro: timer_gone_resume)
next
  case (IdleTimerFires u)
  then show ?thesis using assms by (auto split: if_splits option.splits simp: timer_gone_def)
next
  case (SocketDrops s)
  then show ?thesis using assms by (auto split: if_splits simp: timer_gone_def)
next
  case (Advance d)
  then show ?thesis using assms by (auto split: if_splits simp: timer_gone_def)
qed

lemma timer_gone_run: "timer_gone t w \<Longrightarrow> run as w = Some w' \<Longrightarrow> timer_gone t w'"
  by (induction as arbitrary: w) (auto split: option.splits if_splits intro: timer_gone_step)

lemma resume_closes:
  "ws w = None \<Longrightarrow> ws (resume ok c w x) = None \<and> closes (trace (resume ok c w x)) = closes (trace w)"
  by (cases x) (simp add: resume_cases)

lemma foldl_resume_closes:
  "ws w = None \<Longrightarrow>
     ws (foldl (resume ok c) w xs) = None
   \<and> closes (trace (foldl (resume ok c) w xs)) = closes (trace w)"
proof (induction xs arbitrary: w)
  case Nil
  then show ?case by simp
next
  case (Cons x xs)
  show ?case using resume_closes [OF Cons.prems, of ok c x] Cons.IH [of "resume ok c w x"] by simp
qed

lemma quiet_step_disconnected:
  assumes "ws w = None" and "step a w = Some w'" and "\<not> is_send a"
  shows "ws w' = None \<and> closes (trace w') = closes (trace w)"
proof (cases a)
  case (SendElement h p ok)
  then show ?thesis using assms(3) by simp
next
  case (SocketOpens s ok)
  let ?w1 = "w\<lparr>readyState := (readyState w)(s := WS_OPEN),
                waiting := filter (\<lambda>x. fst (snd x) \<noteq> s) (waiting w)\<rparr>"
  have "ws ?w1 = None" using assms(1) by simp
  then show ?thesis
    using foldl_resume_closes [of ?w1 ok True "filter (\<lambda>x. fst (snd x) = s) (waiting w)"]
      assms(2) SocketOpens by (auto split: if_splits)
next
  case (ConnectionTimeout j)
  let ?w1 = "w\<lparr>waiting := filter (\<lambda>y. fst y \<noteq> j) (waiting w)\<rparr>"
  have "ws ?w1 = None" using assms(1) by simp
  then show ?thesis
    using resume_closes [of ?w1 True False] assms(2) ConnectionTimeout
    by (auto split: option.splits if_splits)
next
  case (IdleTimerFires u)
  then show ?thesis using assms by (auto split: if_splits)
next
  case (SocketDrops s)
  then show ?thesis using assms by (auto split: if_splits)
next
  case (Advance d)
  then show ?thesis using assms by (auto split: if_splits)
qed

lemma quiet_run_disconnected:
  "ws w = None \<Longrightarrow> run as w = Some w' \<Longrightarrow> \<forall>a \<in> set as. \<not> is_send a \<Longrightarrow>
     ws w' = None \<and> closes (trace w') = closes (trace w)"
proof (induction as arbitrary: w)
  case Nil
  then show ?case by simp
next
  case (Cons a as)
  then obtain w1 where w1: "step a w = Some w1" "run as w1 = Some w'"
    by (auto split: option.splits if_splits)
  have 1: "ws w1 = None \<and> closes (trace w1) = closes (trace w)"
    using quiet_step_disconnected [OF Cons.prems(1) w1(1)] Cons.prems(3) by simp
  show ?case using Cons.IH [OF _ w1(2)] 1 Cons.prems(3) by simp
qed




















end
